theory Spec2Isabelle
  imports Complex_Main "HOL-Library.Sublist"
begin

section \<open>Code extraction: the pattern \<open>regex_strict\<close>\<close>

text \<open>
  \<open>wait_for_code\<close> looks for the verification code with
  \<^verbatim>\<open>re.search(r'(?<!\d)(\d{6})(?!\d)', source)\<close> and returns \<^verbatim>\<open>match.group(1)\<close>.
  A text is a list of characters of any type \<open>'c\<close>; the class \<^verbatim>\<open>\d\<close> is the
  parameter \<open>isdigit\<close> (for a Python \<^verbatim>\<open>str\<close> it is the Unicode decimal digits),
  so every statement below holds for whichever class the engine uses.
\<close>

definition match_at :: "('c \<Rightarrow> bool) \<Rightarrow> 'c list \<Rightarrow> nat \<Rightarrow> bool" where
  \<comment> \<open>the pattern matches with its group starting at position \<open>i\<close>:
      lookbehind \<^verbatim>\<open>(?<!\d)\<close>, six \<^verbatim>\<open>\d\<close>, lookahead \<^verbatim>\<open>(?!\d)\<close>\<close>
  "match_at isdigit s i \<longleftrightarrow>
     i + 6 \<le> length s \<and>
     (i = 0 \<or> \<not> isdigit (s ! (i - 1))) \<and>
     list_all isdigit (take 6 (drop i s)) \<and>
     (i + 6 = length s \<or> \<not> isdigit (s ! (i + 6)))"

definition re_search :: "('c \<Rightarrow> bool) \<Rightarrow> 'c list \<Rightarrow> (nat \<times> 'c list) option" where
  \<comment> \<open>\<^verbatim>\<open>re.search\<close>: the start positions \<open>0 .. len(s)\<close> are tried from left to right; the
      match object is its start and its group 1; \<open>None\<close> is Python's \<^verbatim>\<open>None\<close>\<close>
  "re_search isdigit s =
     map_option (\<lambda>i. (i, take 6 (drop i s)))
       (find (match_at isdigit s) [0..<Suc (length s)])"

definition extract_code :: "('c \<Rightarrow> bool) \<Rightarrow> 'c list \<Rightarrow> 'c list option" where
  \<comment> \<open>\<^verbatim>\<open>match = re.search(regex_strict, source); if match: code = match.group(1)\<close>\<close>
  "extract_code isdigit s = map_option snd (re_search isdigit s)"

definition ascii_digit :: "char \<Rightarrow> bool" where
  "ascii_digit c \<longleftrightarrow> c \<in> set ''0123456789''"

subsection \<open>The specification's wording\<close>

text \<open>
  The maximal digit runs of a text, from left to right: a run starts at a digit that has no
  digit before it, and extends over all the digits that follow.
\<close>

definition run_starts :: "('c \<Rightarrow> bool) \<Rightarrow> 'c list \<Rightarrow> nat list" where
  "run_starts isdigit s =
     filter (\<lambda>i. isdigit (s ! i) \<and> (i = 0 \<or> \<not> isdigit (s ! (i - 1)))) [0..<length s]"

definition digit_runs :: "('c \<Rightarrow> bool) \<Rightarrow> 'c list \<Rightarrow> (nat \<times> 'c list) list" where
  "digit_runs isdigit s = map (\<lambda>i. (i, takeWhile isdigit (drop i s))) (run_starts isdigit s)"

definition first_run_of_six :: "('c \<Rightarrow> bool) \<Rightarrow> 'c list \<Rightarrow> (nat \<times> 'c list) option" where
  \<comment> \<open>the first maximal run of exactly 6 digits, or absent\<close>
  "first_run_of_six isdigit s = find (\<lambda>r. length (snd r) = 6) (digit_runs isdigit s)"

section \<open>Control flow of the Python functions\<close>

datatype exc = ImportError | Exception | BaseException

definition is_Exception :: "exc \<Rightarrow> bool" where
  "is_Exception e \<longleftrightarrow> e \<noteq> BaseException"

definition is_ImportError :: "exc \<Rightarrow> bool" where
  "is_ImportError e \<longleftrightarrow> e = ImportError"

definition any_exc :: "exc \<Rightarrow> bool" where
  "any_exc e \<longleftrightarrow> True"

datatype 'a outcome = Returned 'a | Raised exc

datatype ('r, 'a) flow = Next 'a | Return 'r | Raise exc

datatype level = INFO | ERR

datatype msg =
    UploadStart | UploadSaved | UploadRejected | UploadException
  | MailRequest | MailAddress | MailFailed
  | MailListen | MailReceived | CodeFound
  | MissingDependency | InstallHint | Visiting | SignInFallback | ClickingContinue
  | EnterVerify | CodeFieldAppeared | ChallengeTimeout | WaitingCode | TypingCode
  | ReadingCookies | CookieCount | RelatedCookie | ClerkHit | KeyExtracted | KeyMissing
  | CodeTimeout | AttemptError
  | CaptchaMain | CaptchaFrame
  | Start | ConfigCount | ConfigServer | ConfigHeadless | Resting

datatype request = MailGenerate | MailList string | PostCredential string string

datatype call =
    Import | ChromeOptions bool
  | Chrome | SetPageLoadTimeout | GetTarget
  | WaitSignIn | ClickSignIn | GetSignIn | WaitWelcome
  | WaitSignUp | ClickSignUp | GetSignUp | WaitEmailField
  | TypeEmail | TypePassword | ClickContinue | SubmitPassword
  | FindCodeField nat
  | Script nat "nat option" | FindFrames nat | SwitchFrame nat nat
  | DefaultContent nat nat | DefaultContentHandler nat nat
  | WaitCodeField | TypeCode | CurrentUrl
  | WaitUsername | TypeUsername | FindButtons | ButtonText nat | ClickButton nat
  | CdpGetAllCookies | GetCookies
  | ServiceStop | Quit

datatype event =
    Stdout string
  | Banner int int
  | Summary nat int
  | Log level msg
  | Sleep nat
  | Http request
  | Browser call

record frame =
  trace :: "event list"

type_synonym ('s, 'r, 'a) act = "'s \<Rightarrow> (('r, 'a) flow \<times> 's) option"

definition unit_act :: "'a \<Rightarrow> ('s, 'r, 'a) act" where
  "unit_act x = (\<lambda>s. Some (Next x, s))"

definition ret :: "'r \<Rightarrow> ('s, 'r, 'a) act" where
  "ret v = (\<lambda>s. Some (Return v, s))"

definition raise :: "exc \<Rightarrow> ('s, 'r, 'a) act" where
  "raise e = (\<lambda>s. Some (Raise e, s))"

definition seq :: "('s, 'r, 'a) act \<Rightarrow> ('a \<Rightarrow> ('s, 'r, 'b) act) \<Rightarrow> ('s, 'r, 'b) act" where
  "seq m f = (\<lambda>s. case m s of
       None \<Rightarrow> None
     | Some (Next x, s') \<Rightarrow> f x s'
     | Some (Return v, s') \<Rightarrow> Some (Return v, s')
     | Some (Raise e, s') \<Rightarrow> Some (Raise e, s'))"

definition try_except ::
  "(exc \<Rightarrow> bool) \<Rightarrow> ('s, 'r, 'a) act \<Rightarrow> (exc \<Rightarrow> ('s, 'r, 'a) act) \<Rightarrow> ('s, 'r, 'a) act" where
  "try_except catches body handler = (\<lambda>s. case body s of
       None \<Rightarrow> None
     | Some (Raise e, s') \<Rightarrow> if catches e then handler e s' else Some (Raise e, s')
     | Some (Next x, s') \<Rightarrow> Some (Next x, s')
     | Some (Return v, s') \<Rightarrow> Some (Return v, s'))"

definition try_finally :: "('s, 'r, 'a) act \<Rightarrow> ('s, 'r, unit) act \<Rightarrow> ('s, 'r, 'a) act" where
  "try_finally body final = (\<lambda>s. case body s of
       None \<Rightarrow> None
     | Some (fl, s') \<Rightarrow>
         (case final s' of
            None \<Rightarrow> None
          | Some (Next u, s'') \<Rightarrow> Some (fl, s'')
          | Some (Return v, s'') \<Rightarrow> Some (Return v, s'')
          | Some (Raise e, s'') \<Rightarrow> Some (Raise e, s'')))"

definition emit :: "event \<Rightarrow> ('z frame_scheme, 'r, unit) act" where
  "emit e = (\<lambda>s. Some (Next (), s\<lparr>trace := trace s @ [e]\<rparr>))"

definition log :: "level \<Rightarrow> msg \<Rightarrow> ('z frame_scheme, 'r, unit) act" where
  "log l m = emit (Log l m)"

definition sleep :: "nat \<Rightarrow> ('z frame_scheme, 'r, unit) act" where
  "sleep n = emit (Sleep n)"

definition ext :: "event \<Rightarrow> 'a outcome \<Rightarrow> ('z frame_scheme, 'r, 'a) act" where
  "ext e out = seq (emit e) (\<lambda>_. case out of Returned x \<Rightarrow> unit_act x | Raised ex \<Rightarrow> raise ex)"

definition run :: "('s, 'r, 'r) act \<Rightarrow> 's \<Rightarrow> ('s \<Rightarrow> event list) \<Rightarrow> ('r outcome \<times> event list) option" where
  "run body init tr = (case body init of
       None \<Rightarrow> None
     | Some (Next v, s) \<Rightarrow> Some (Returned v, tr s)
     | Some (Return v, s) \<Rightarrow> Some (Returned v, tr s)
     | Some (Raise e, s) \<Rightarrow> Some (Raised e, tr s))"

definition call :: "('a outcome \<times> event list) option \<Rightarrow> ('z frame_scheme, 'r, 'a) act" where
  "call res = (\<lambda>s. case res of
       None \<Rightarrow> None
     | Some (Returned v, evs) \<Rightarrow> Some (Next v, s\<lparr>trace := trace s @ evs\<rparr>)
     | Some (Raised e, evs) \<Rightarrow> Some (Raise e, s\<lparr>trace := trace s @ evs\<rparr>))"

definition truthy :: "string option \<Rightarrow> bool" where
  "truthy v \<longleftrightarrow> (case v of None \<Rightarrow> False | Some s \<Rightarrow> s \<noteq> [])"

definition start :: frame where
  "start = \<lparr>trace = []\<rparr>"

section \<open>upload_to_server\<close>

definition upload_to_server :: "nat outcome \<Rightarrow> string \<Rightarrow> string \<Rightarrow> (bool outcome \<times> event list) option" where
  "upload_to_server post client_key server_url =
     run
       (seq (emit (Stdout (''CLIENT_KEY:'' @ client_key))) (\<lambda>_.
        if server_url = [] then ret True
        else
          seq (try_except is_Exception
                 (seq (log INFO UploadStart) (\<lambda>_.
                  seq (ext (Http (PostCredential (server_url @ ''/api/orchids/credentials'') client_key)) post)
                    (\<lambda>status_code.
                  if status_code \<in> {200, 201}
                  then seq (log INFO UploadSaved) (\<lambda>_. ret True)
                  else log ERR UploadRejected)))
                 (\<lambda>e. log ERR UploadException)) (\<lambda>_.
          ret False)))
       start trace"

section \<open>create_temp_email\<close>

definition create_temp_email :: "string option outcome \<Rightarrow> (string option outcome \<times> event list) option" where
  "create_temp_email generated =
     run
       (seq (try_except is_Exception
               (seq (log INFO MailRequest) (\<lambda>_.
                seq (ext (Http MailGenerate) generated) (\<lambda>r.
                case r of
                  Some email \<Rightarrow> seq (log INFO MailAddress) (\<lambda>_. ret (Some email))
                | None \<Rightarrow> unit_act ())))
               (\<lambda>e. log INFO MailFailed)) (\<lambda>_.
        ret None))
       start trace"

section \<open>wait_for_code\<close>

datatype 'i message =
    FetchRaises exc
  | NoMessages
  | BadLatest exc
  | Latest 'i "string option" "string option"

record 'i mailbox =
  isdigit :: "char \<Rightarrow> bool"
  normalize :: "string \<Rightarrow> string"
  clock :: "nat \<Rightarrow> real"
  fetch :: "nat \<Rightarrow> 'i message"

record 'i poll = frame +
  processed_ids :: "'i set"
  searched :: "'i list"

definition add_processed :: "'i \<Rightarrow> ('i poll, 'r, unit) act" where
  "add_processed email_id = (\<lambda>s. Some (Next (), s\<lparr>processed_ids := insert email_id (processed_ids s)\<rparr>))"

definition note_searched :: "'i \<Rightarrow> ('i poll, 'r, unit) act" where
  "note_searched email_id = (\<lambda>s. Some (Next (), s\<lparr>searched := searched s @ [email_id]\<rparr>))"

definition get_processed :: "('i poll, 'r, 'i set) act" where
  "get_processed = (\<lambda>s. Some (Next (processed_ids s), s))"

fun search_sources ::
  "(char \<Rightarrow> bool) \<Rightarrow> string option list \<Rightarrow> ('z frame_scheme, string option, unit) act" where
  "search_sources d [] = unit_act ()"
| "search_sources d (source # sources) =
     (case source of
        None \<Rightarrow> raise Exception
      | Some text \<Rightarrow>
          (case re_search d text of
             Some match \<Rightarrow> seq (log INFO CodeFound) (\<lambda>_. ret (Some (snd match)))
           | None \<Rightarrow> search_sources d sources))"

definition poll_once :: "'i mailbox \<Rightarrow> string \<Rightarrow> nat \<Rightarrow> ('i poll, string option, unit) act" where
  "poll_once box email n =
     seq (emit (Http (MailList email))) (\<lambda>_.
     case fetch box n of
       FetchRaises e \<Rightarrow> raise e
     | NoMessages \<Rightarrow> sleep 3
     | BadLatest e \<Rightarrow> raise e
     | Latest email_id subject raw_content \<Rightarrow>
         seq get_processed (\<lambda>seen.
         seq (if email_id \<notin> seen then
                seq (add_processed email_id) (\<lambda>_.
                case raw_content of
                  None \<Rightarrow> raise Exception
                | Some raw \<Rightarrow>
                    seq (log INFO MailReceived) (\<lambda>_.
                    seq (note_searched email_id) (\<lambda>_.
                    search_sources (isdigit box) [subject, Some (normalize box raw)])))
              else unit_act ()) (\<lambda>_.
         sleep 3)))"

definition poll_step :: "'i mailbox \<Rightarrow> string \<Rightarrow> nat \<Rightarrow> ('i poll, string option, unit) act" where
  "poll_step box email n = try_except any_exc (poll_once box email n) (\<lambda>e. unit_act ())"

partial_function (option) poll_loop ::
  "'i mailbox \<Rightarrow> string \<Rightarrow> nat \<Rightarrow> 'i poll \<Rightarrow> ((string option, unit) flow \<times> 'i poll) option" where
  "poll_loop box email n s =
     (if clock box (Suc n) - clock box 0 < 120 then
        (case poll_step box email n s of
           None \<Rightarrow> None
         | Some (Next u, s') \<Rightarrow> poll_loop box email (Suc n) s'
         | Some (Return v, s') \<Rightarrow> Some (Return v, s')
         | Some (Raise e, s') \<Rightarrow> Some (Raise e, s'))
      else Some (Next (), s))"

definition wait_for_code_body ::
  "'i mailbox \<Rightarrow> string \<Rightarrow> ('i poll, string option, string option) act" where
  "wait_for_code_body box email =
     seq (log INFO MailListen) (\<lambda>_.
     seq (poll_loop box email 0) (\<lambda>_.
     ret None))"

definition poll_start :: "'i poll" where
  "poll_start = \<lparr>trace = [], processed_ids = {}, searched = []\<rparr>"

definition wait_for_code ::
  "'i mailbox \<Rightarrow> string \<Rightarrow> (string option outcome \<times> event list) option" where
  "wait_for_code box email = run (wait_for_code_body box email) poll_start trace"

section \<open>The browser environment of one attempt\<close>

record cookie =
  c_name :: string
  c_domain :: string
  c_value :: string

record button =
  b_text :: "string outcome"
  b_click :: "unit outcome"

record 'i world =
  driver_call :: "call \<Rightarrow> unit outcome"
  code_fields :: "nat \<Rightarrow> nat outcome"
  script :: "nat \<Rightarrow> nat option \<Rightarrow> bool outcome"
  iframes :: "nat \<Rightarrow> nat outcome"
  generated :: "string option outcome"
  inbox :: "'i mailbox"
  current_url :: "string outcome"
  buttons :: "button list outcome"
  cdp_cookies :: "cookie list outcome"
  page_cookies :: "cookie list outcome"
  post :: "nat outcome"

definition browser :: "'i world \<Rightarrow> call \<Rightarrow> ('z frame_scheme, 'r, unit) act" where
  "browser w c = ext (Browser c) (driver_call w c)"

section \<open>force_inject_turnstile\<close>

fun frame_loop :: "'i world \<Rightarrow> nat \<Rightarrow> nat list \<Rightarrow> (frame, bool, unit) act" where
  "frame_loop w k [] = unit_act ()"
| "frame_loop w k (index # rest) =
     seq (try_except any_exc
            (seq (browser w (SwitchFrame k index)) (\<lambda>_.
             seq (ext (Browser (Script k (Some index))) (script w k (Some index))) (\<lambda>hit.
             seq (if hit then
                    seq (log INFO CaptchaFrame) (\<lambda>_.
                    seq (browser w (DefaultContent k index)) (\<lambda>_.
                    ret True))
                  else unit_act ()) (\<lambda>_.
             browser w (DefaultContent k index)))))
            (\<lambda>e. browser w (DefaultContentHandler k index))) (\<lambda>_.
     frame_loop w k rest)"

definition force_inject_turnstile :: "'i world \<Rightarrow> nat \<Rightarrow> (bool outcome \<times> event list) option" where
  "force_inject_turnstile w k =
     run
       (seq (ext (Browser (Script k None)) (script w k None)) (\<lambda>hit.
        seq (if hit then seq (log INFO CaptchaMain) (\<lambda>_. ret True) else unit_act ()) (\<lambda>_.
        seq (ext (Browser (FindFrames k)) (iframes w k)) (\<lambda>count.
        seq (frame_loop w k [0..<count]) (\<lambda>_.
        ret False)))))
       start trace"

section \<open>register_one_account\<close>

record attempt = frame +
  driver :: bool
  success :: bool

definition set_driver :: "(attempt, 'r, unit) act" where
  "set_driver = (\<lambda>s. Some (Next (), s\<lparr>driver := True\<rparr>))"

definition set_success :: "(attempt, 'r, unit) act" where
  "set_success = (\<lambda>s. Some (Next (), s\<lparr>success := True\<rparr>))"

definition get_driver :: "(attempt, 'r, bool) act" where
  "get_driver = (\<lambda>s. Some (Next (driver s), s))"

definition get_success :: "(attempt, 'r, bool) act" where
  "get_success = (\<lambda>s. Some (Next (success s), s))"

definition lower :: "string \<Rightarrow> string" where
  "lower s = map (\<lambda>c. let n = (of_char c :: nat) in if 65 \<le> n \<and> n \<le> 90 then char_of (n + 32) else c) s"

definition open_signup :: "'i world \<Rightarrow> (attempt, bool, unit) act" where
  "open_signup w =
     seq (browser w Chrome) (\<lambda>_.
     seq set_driver (\<lambda>_.
     seq (log INFO Visiting) (\<lambda>_.
     seq (browser w SetPageLoadTimeout) (\<lambda>_.
     seq (browser w GetTarget) (\<lambda>_.
     seq (sleep 3) (\<lambda>_.
     seq (try_except is_Exception
            (seq (browser w WaitSignIn) (\<lambda>_. browser w ClickSignIn))
            (\<lambda>e. seq (log INFO SignInFallback) (\<lambda>_.
                 seq (browser w GetSignIn) (\<lambda>_. sleep 2)))) (\<lambda>_.
     seq (browser w WaitWelcome) (\<lambda>_.
     seq (try_except any_exc
            (seq (browser w WaitSignUp) (\<lambda>_. browser w ClickSignUp))
            (\<lambda>e. seq (browser w GetSignUp) (\<lambda>_. sleep 2))) (\<lambda>_.
     browser w WaitEmailField)))))))))"

definition fill_form :: "'i world \<Rightarrow> (attempt, bool, string) act" where
  "fill_form w =
     seq (call (create_temp_email (generated w))) (\<lambda>email.
     if \<not> truthy email then ret False
     else
       seq (browser w TypeEmail) (\<lambda>_.
       seq (browser w TypePassword) (\<lambda>_.
       seq (log INFO ClickingContinue) (\<lambda>_.
       seq (try_except any_exc
              (browser w ClickContinue)
              (\<lambda>e. browser w SubmitPassword)) (\<lambda>_.
       unit_act (the email))))))"

fun challenge_loop :: "'i world \<Rightarrow> nat list \<Rightarrow> (attempt, bool, bool) act" where
  "challenge_loop w [] = unit_act False"
| "challenge_loop w (k # rest) =
     seq (ext (Browser (FindCodeField k)) (code_fields w k)) (\<lambda>found.
     if found > 0 then seq (log INFO CodeFieldAppeared) (\<lambda>_. unit_act True)
     else
       seq (try_except any_exc
              (seq (call (force_inject_turnstile w k)) (\<lambda>_. unit_act ()))
              (\<lambda>e. unit_act ())) (\<lambda>_.
       seq (sleep 2) (\<lambda>_.
       challenge_loop w rest)))"

definition clear_challenge :: "'i world \<Rightarrow> (attempt, bool, unit) act" where
  "clear_challenge w =
     seq (log INFO EnterVerify) (\<lambda>_.
     seq (challenge_loop w [0..<15]) (\<lambda>pass_check.
     if \<not> pass_check then seq (log ERR ChallengeTimeout) (\<lambda>_. ret False)
     else unit_act ()))"

fun click_continue :: "nat \<Rightarrow> button list \<Rightarrow> (attempt, bool, unit) act" where
  "click_continue i [] = unit_act ()"
| "click_continue i (btn # btns) =
     seq (ext (Browser (ButtonText i)) (b_text btn)) (\<lambda>text.
     if sublist ''Continue'' text then ext (Browser (ClickButton i)) (b_click btn)
     else click_continue (Suc i) btns)"

definition username_step :: "'i world \<Rightarrow> (attempt, bool, unit) act" where
  "username_step w =
     seq (ext (Browser CurrentUrl) (current_url w)) (\<lambda>url.
     if sublist ''sign-up'' url then
       try_except any_exc
         (seq (browser w WaitUsername) (\<lambda>_.
          seq (browser w TypeUsername) (\<lambda>_.
          seq (ext (Browser FindButtons) (buttons w)) (\<lambda>btns.
          click_continue 0 btns))))
         (\<lambda>e. unit_act ())
     else unit_act ())"

fun scan_cookies :: "cookie list \<Rightarrow> string option \<Rightarrow> (attempt, bool, string option) act" where
  "scan_cookies [] client_key = unit_act client_key"
| "scan_cookies (cookie # rest) client_key =
     seq (if sublist ''client'' (lower (c_name cookie)) then log INFO RelatedCookie
          else unit_act ()) (\<lambda>_.
     if c_name cookie = ''__client'' then
       seq (if sublist ''clerk'' (c_domain cookie) then log INFO ClerkHit else unit_act ()) (\<lambda>_.
       scan_cookies rest (Some (c_value cookie)))
     else scan_cookies rest client_key)"

definition extract_credential :: "'i world \<Rightarrow> string \<Rightarrow> (attempt, bool, unit) act" where
  "extract_credential w server_url =
     seq (log INFO ReadingCookies) (\<lambda>_.
     seq (try_except any_exc
            (ext (Browser CdpGetAllCookies) (cdp_cookies w))
            (\<lambda>e. ext (Browser GetCookies) (page_cookies w))) (\<lambda>all_cookies.
     seq (log INFO CookieCount) (\<lambda>_.
     seq (scan_cookies all_cookies None) (\<lambda>client_key.
     if truthy client_key then
       seq (log INFO KeyExtracted) (\<lambda>_.
       seq (call (upload_to_server (post w) (the client_key) server_url)) (\<lambda>_.
       set_success))
     else log ERR KeyMissing))))"

definition verify_email :: "'i world \<Rightarrow> string \<Rightarrow> string \<Rightarrow> (attempt, bool, unit) act" where
  "verify_email w email server_url =
     seq (log INFO WaitingCode) (\<lambda>_.
     seq (browser w WaitCodeField) (\<lambda>_.
     seq (call (wait_for_code (inbox w) email)) (\<lambda>code.
     if truthy code then
       seq (log INFO TypingCode) (\<lambda>_.
       seq (browser w TypeCode) (\<lambda>_.
       seq (sleep 5) (\<lambda>_.
       seq (username_step w) (\<lambda>_.
       extract_credential w server_url))))
     else log INFO CodeTimeout)))"

definition attempt_body :: "'i world \<Rightarrow> string \<Rightarrow> (attempt, bool, unit) act" where
  "attempt_body w server_url =
     seq (open_signup w) (\<lambda>_.
     seq (fill_form w) (\<lambda>email.
     seq (clear_challenge w) (\<lambda>_.
     verify_email w email server_url)))"

definition release :: "'i world \<Rightarrow> (attempt, bool, unit) act" where
  "release w =
     seq get_driver (\<lambda>d.
     if d then
       try_except any_exc
         (seq (browser w ServiceStop) (\<lambda>_. browser w Quit))
         (\<lambda>e. unit_act ())
     else unit_act ())"

definition attempt_start :: attempt where
  "attempt_start = \<lparr>trace = [], driver = False, success = False\<rparr>"

definition register_one_account ::
  "int \<Rightarrow> int \<Rightarrow> string \<Rightarrow> bool \<Rightarrow> 'i world \<Rightarrow> (bool outcome \<times> event list) option" where
  "register_one_account current_idx total_count server_url headless w =
     run
       (seq (emit (Banner current_idx total_count)) (\<lambda>_.
        seq (try_except is_ImportError
               (browser w Import)
               (\<lambda>e. seq (log ERR MissingDependency) (\<lambda>_.
                    seq (log ERR InstallHint) (\<lambda>_.
                    ret False)))) (\<lambda>_.
        seq (browser w (ChromeOptions headless)) (\<lambda>_.
        seq (try_finally
               (try_except is_Exception
                  (attempt_body w server_url)
                  (\<lambda>e. log ERR AttemptError))
               (release w)) (\<lambda>_.
        seq get_success ret)))))
       attempt_start trace"

section \<open>main\<close>

record batch = frame +
  success_count :: nat

definition count_success :: "(batch, 'r, unit) act" where
  "count_success = (\<lambda>s. Some (Next (), s\<lparr>success_count := success_count s + 1\<rparr>))"

definition get_count :: "(batch, 'r, nat) act" where
  "get_count = (\<lambda>s. Some (Next (success_count s), s))"

record 'i setting =
  total_num :: int
  server :: string
  headless_flag :: bool
  worlds :: "nat \<Rightarrow> 'i world"
  wait_time :: "nat \<Rightarrow> nat"

fun batch_loop :: "'i setting \<Rightarrow> nat list \<Rightarrow> (batch, int, unit) act" where
  "batch_loop a [] = unit_act ()"
| "batch_loop a (i # rest) =
     seq (call (register_one_account (int i + 1) (total_num a) (server a) (headless_flag a)
                  (worlds a i))) (\<lambda>ok.
     seq (if ok then count_success else unit_act ()) (\<lambda>_.
     seq (if int i < total_num a - 1 then
            seq (log INFO Resting) (\<lambda>_. sleep (wait_time a i))
          else unit_act ()) (\<lambda>_.
     batch_loop a rest)))"

definition batch_start :: batch where
  "batch_start = \<lparr>trace = [], success_count = 0\<rparr>"

definition main :: "'i setting \<Rightarrow> (int outcome \<times> event list) option" where
  "main a =
     run
       (seq (log INFO Start) (\<lambda>_.
        seq (log INFO ConfigCount) (\<lambda>_.
        seq (log INFO ConfigServer) (\<lambda>_.
        seq (log INFO ConfigHeadless) (\<lambda>_.
        seq (batch_loop a [0..<nat (total_num a)]) (\<lambda>_.
        seq get_count (\<lambda>n.
        seq (emit (Summary n (total_num a))) (\<lambda>_.
        ret (if n > 0 then 0 else 1)))))))))
       batch_start trace"

section \<open>Vocabulary of the proofs\<close>

definition stable :: "('s \<Rightarrow> bool) \<Rightarrow> ('s, 'r, 'a) act \<Rightarrow> bool" where
  "stable I m \<longleftrightarrow> (\<forall>s fl s'. I s \<longrightarrow> m s = Some (fl, s') \<longrightarrow> I s')"

definition total :: "('s, 'r, 'a) act \<Rightarrow> bool" where
  "total m \<longleftrightarrow> (\<forall>s. m s \<noteq> None)"

named_theorems stable_intros

named_theorems total_intros

definition returns :: "('r \<Rightarrow> bool) \<Rightarrow> ('s, 'r, 'a) act \<Rightarrow> bool" where
  "returns P m \<longleftrightarrow> (\<forall>s fl s' v. m s = Some (fl, s') \<longrightarrow> fl = Return v \<longrightarrow> P v)"

named_theorems returns_intros

definition inspect ::
  "'i mailbox \<Rightarrow> string option \<Rightarrow> string \<Rightarrow> (string option, unit) flow \<times> event list" where
  "inspect box subject raw =
     (case subject of
        None \<Rightarrow> (Next (), [])
      | Some text \<Rightarrow>
          (case re_search (isdigit box) text of
             Some m \<Rightarrow> (Return (Some (snd m)), [Log INFO CodeFound])
           | None \<Rightarrow>
               (case re_search (isdigit box) (normalize box raw) of
                  Some m \<Rightarrow> (Return (Some (snd m)), [Log INFO CodeFound])
                | None \<Rightarrow> (Next (), [Sleep 3]))))"

definition mail_events :: "string \<Rightarrow> event set" where
  "mail_events email =
     {Log INFO MailListen, Http (MailList email), Sleep 3, Log INFO MailReceived,
      Log INFO CodeFound}"

definition dedup :: "'i poll \<Rightarrow> bool" where
  "dedup s \<longleftrightarrow> distinct (searched s) \<and> set (searched s) \<subseteq> processed_ids s"

definition quiet :: "event \<Rightarrow> bool" where
  "quiet e \<longleftrightarrow> (case e of Stdout l \<Rightarrow> False
      | Log l m \<Rightarrow> m \<noteq> KeyExtracted \<and> m \<noteq> EnterVerify
      | Browser c \<Rightarrow> c \<noteq> Chrome \<and> c \<noteq> ServiceStop \<and> c \<noteq> Quit
      | _ \<Rightarrow> True)"

definition appends :: "(event \<Rightarrow> bool) \<Rightarrow> ('z frame_scheme \<Rightarrow> bool) \<Rightarrow> bool" where
  "appends Q I \<longleftrightarrow> (\<forall>s e. I s \<longrightarrow> Q e \<longrightarrow> I (s\<lparr>trace := trace s @ [e]\<rparr>))"

definition after_chrome :: "'i world \<Rightarrow> (attempt, bool, unit) act" where
  "after_chrome w =
     seq (log INFO Visiting) (\<lambda>_.
     seq (browser w SetPageLoadTimeout) (\<lambda>_.
     seq (browser w GetTarget) (\<lambda>_.
     seq (sleep 3) (\<lambda>_.
     seq (try_except is_Exception
            (seq (browser w WaitSignIn) (\<lambda>_. browser w ClickSignIn))
            (\<lambda>e. seq (log INFO SignInFallback) (\<lambda>_.
                 seq (browser w GetSignIn) (\<lambda>_. sleep 2)))) (\<lambda>_.
     seq (browser w WaitWelcome) (\<lambda>_.
     seq (try_except any_exc
            (seq (browser w WaitSignUp) (\<lambda>_. browser w ClickSignUp))
            (\<lambda>e. seq (browser w GetSignUp) (\<lambda>_. sleep 2))) (\<lambda>_.
     browser w WaitEmailField)))))))"

text \<open>
  Everything the script prints goes to standard output, and the trace keeps the kinds of output
  apart. \<open>Stdout\<close> is the bare \<open>print\<close> of \<open>upload_to_server\<close>, whose line starts with
  \<open>CLIENT_KEY:\<close>. The lines of \<open>log\<close> start with the time and the level in brackets, and the
  banner and the summary are printed after an empty line; they are the events \<open>Log\<close>,
  \<open>Banner\<close> and \<open>Summary\<close>. \<open>stdout_lines\<close> collects the lines of the bare \<open>print\<close>.
\<close>

definition stdout_lines :: "event list \<Rightarrow> string list" where
  "stdout_lines evs = concat (map (\<lambda>e. case e of Stdout line \<Rightarrow> [line] | _ \<Rightarrow> []) evs)"

definition scenario :: "nat world" where
  "scenario = \<lparr>driver_call = (\<lambda>c. Returned ()),
     code_fields = (\<lambda>k. Returned (if k < 2 then 0 else 1)),
     script = (\<lambda>k frame. Returned False),
     iframes = (\<lambda>k. Returned 1),
     generated = Returned (Some ''a@b.test''),
     inbox = \<lparr>isdigit = ascii_digit, normalize = (\<lambda>raw. raw), clock = (\<lambda>k. 50 * real k),
       fetch = (\<lambda>k. if k = 0 then NoMessages
                else Latest 7 (Some ''Your code is 482913'') (Some []))\<rparr>,
     current_url = Returned ''https://www.orchids.app/'',
     buttons = Returned [],
     cdp_cookies = Returned [\<lparr>c_name = ''__client'', c_domain = ''clerk.orchids.app'',
       c_value = ''tok_abc''\<rparr>],
     page_cookies = Returned [],
     post = Returned 201\<rparr>"

definition two_clients :: "nat world" where
  "two_clients = scenario\<lparr>cdp_cookies := Returned
     [\<lparr>c_name = ''__client'', c_domain = ''clerk.orchids.app'', c_value = ''tok_clerk''\<rparr>,
      \<lparr>c_name = ''__client'', c_domain = ''www.orchids.app'', c_value = ''tok_other''\<rparr>]\<rparr>"

definition no_driver :: "nat world" where
  "no_driver = scenario\<lparr>driver_call := (\<lambda>c. if c = Import then Raised ImportError else Returned ())\<rparr>"

definition no_driver_batch :: "nat setting" where
  "no_driver_batch = \<lparr>total_num = 2, server = [], headless_flag = False,
     worlds = (\<lambda>i. no_driver), wait_time = (\<lambda>i. 8)\<rparr>"

definition flaky_inbox :: "nat mailbox" where
  "flaky_inbox = \<lparr>isdigit = ascii_digit, normalize = (\<lambda>raw. raw),
     clock = (\<lambda>k. if k \<le> 2 then 0 else 120),
     fetch = (\<lambda>k. if k = 0 then FetchRaises Exception else NoMessages)\<rparr>"

definition closing :: "'i world \<Rightarrow> event list" where
  "closing w = Browser ServiceStop #
     (case driver_call w ServiceStop of Returned u \<Rightarrow> [Browser Quit] | Raised e \<Rightarrow> [])"

definition entered :: "int \<Rightarrow> int \<Rightarrow> bool \<Rightarrow> attempt" where
  "entered i t h =
     \<lparr>trace = [Banner i t, Browser Import, Browser (ChromeOptions h)], driver = False,
      success = False\<rparr>"

definition guarded :: "'i world \<Rightarrow> string \<Rightarrow> (attempt, bool, unit) act" where
  "guarded w url = try_except is_Exception (attempt_body w url) (\<lambda>e. log ERR AttemptError)"

definition outcome_of :: "(bool, unit) flow \<Rightarrow> attempt \<Rightarrow> bool outcome" where
  "outcome_of fl s =
     (case fl of Next u \<Rightarrow> Returned (success s) | Return v \<Rightarrow> Returned v | Raise e \<Rightarrow> Raised e)"

definition inner :: "event \<Rightarrow> bool" where
  "inner e \<longleftrightarrow> e \<noteq> Browser Chrome \<and> e \<noteq> Browser ServiceStop \<and> e \<noteq> Browser Quit"

definition cookies_read :: "'i world \<Rightarrow> cookie list outcome" where
  "cookies_read w =
     (case cdp_cookies w of Returned cs \<Rightarrow> Returned cs | Raised e \<Rightarrow> page_cookies w)"

definition read_events :: "'i world \<Rightarrow> event list" where
  "read_events w = Browser CdpGetAllCookies #
     (case cdp_cookies w of Returned cs \<Rightarrow> [] | Raised e \<Rightarrow> [Browser GetCookies])"

definition pick_key :: "cookie list \<Rightarrow> string option \<Rightarrow> string option" where
  "pick_key cs k = foldl (\<lambda>k c. if c_name c = ''__client'' then Some (c_value c) else k) k cs"

definition scan_events :: "cookie list \<Rightarrow> event list" where
  "scan_events cs = concat (map (\<lambda>c.
     (if sublist ''client'' (lower (c_name c)) then [Log INFO RelatedCookie] else []) @
     (if c_name c = ''__client'' \<and> sublist ''clerk'' (c_domain c) then [Log INFO ClerkHit]
      else [])) cs)"

definition selected :: "'i world \<Rightarrow> string option" where
  "selected w = (case cookies_read w of Returned cs \<Rightarrow> pick_key cs None | Raised e \<Rightarrow> None)"

definition unpublished :: "attempt \<Rightarrow> bool" where
  "unpublished s \<longleftrightarrow>
     stdout_lines (trace s) = [] \<and> Log INFO KeyExtracted \<notin> set (trace s) \<and> \<not> success s"

definition published :: "'i world \<Rightarrow> (bool, unit) flow \<Rightarrow> attempt \<Rightarrow> bool" where
  "published w fl s \<longleftrightarrow>
     (if Log INFO KeyExtracted \<in> set (trace s)
      then stdout_lines (trace s) = [''CLIENT_KEY:'' @ the (selected w)] \<and>
        truthy (selected w) \<and>
        (case fl of Next u \<Rightarrow> success s | Return v \<Rightarrow> False
         | Raise e \<Rightarrow> post w = Raised e \<and> \<not> is_Exception e)
      else unpublished s \<and> (case fl of Return v \<Rightarrow> \<not> v | _ \<Rightarrow> True))"

definition leads ::
  "('s \<Rightarrow> bool) \<Rightarrow> ('s, 'r, 'a) act \<Rightarrow> (('r, 'a) flow \<Rightarrow> 's \<Rightarrow> bool) \<Rightarrow> bool" where
  "leads I m Q \<longleftrightarrow> (\<forall>s fl s'. I s \<longrightarrow> m s = Some (fl, s') \<longrightarrow> Q fl s')"

definition repeating_inbox :: "nat mailbox" where
  "repeating_inbox = \<lparr>isdigit = ascii_digit, normalize = (\<lambda>raw. raw),
     clock = (\<lambda>k. 50 * real k),
     fetch = (\<lambda>k. Latest 7 (Some ''Welcome'') (Some ''no code yet''))\<rparr>"

definition attempt_result :: "'i setting \<Rightarrow> nat \<Rightarrow> (bool outcome \<times> event list) option" where
  "attempt_result a i =
     register_one_account (int i + 1) (total_num a) (server a) (headless_flag a) (worlds a i)"

definition returned :: "'i setting \<Rightarrow> nat \<Rightarrow> bool" where
  "returned a i \<longleftrightarrow>
     (case attempt_result a i of Some (Returned ok, evs) \<Rightarrow> True | _ \<Rightarrow> False)"

definition succeeded :: "'i setting \<Rightarrow> nat \<Rightarrow> bool" where
  "succeeded a i \<longleftrightarrow> map_option fst (attempt_result a i) = Some (Returned True)"

definition mixed_batch :: "nat setting" where
  "mixed_batch = \<lparr>total_num = 3, server = [], headless_flag = False,
     worlds = (\<lambda>i. if i = 1 then scenario else no_driver), wait_time = (\<lambda>i. 8)\<rparr>"





definition session_open :: "event list \<Rightarrow> attempt \<Rightarrow> bool" where
  "session_open before s \<longleftrightarrow>
     driver s \<and> (\<exists>evs. trace s = before @ Browser Chrome # evs \<and> list_all inner evs)"

definition crashing :: "nat world" where
  "crashing = scenario\<lparr>driver_call :=
     (\<lambda>c. if c = GetTarget \<or> c = ServiceStop then Raised Exception else Returned ())\<rparr>"

definition stop_fails :: "nat world" where
  "stop_fails = scenario\<lparr>driver_call :=
     (\<lambda>c. if c = ServiceStop then Raised Exception else Returned ())\<rparr>"

definition session_calls :: "event list \<Rightarrow> call list" where
  "session_calls evs = concat (map (\<lambda>e. case e of
       Browser c \<Rightarrow> if c = Chrome \<or> c = ServiceStop \<or> c = Quit then [c] else []
     | _ \<Rightarrow> []) evs)"

definition rejecting :: "nat world" where
  "rejecting = scenario\<lparr>post := Returned 500\<rparr>"

definition unreachable :: "nat world" where
  "unreachable = scenario\<lparr>post := Raised Exception\<rparr>"

section \<open>Properties of the code extraction\<close>


lemma length_takeWhile_eq:
  "length (takeWhile P xs) = n \<longleftrightarrow>
     n \<le> length xs \<and> list_all P (take n xs) \<and> (n = length xs \<or> \<not> P (xs ! n))"
proof (induction xs arbitrary: n)
  case Nil then show ?case by auto
next
  case (Cons x xs)
  show ?case
  proof (cases n)
    case 0 then show ?thesis by auto
  next
    case (Suc m)
    then show ?thesis using Cons.IH[of m] by auto
  qed
qed

lemma find_filter: "find P (filter Q xs) = find (\<lambda>x. Q x \<and> P x) xs"
  by (induction xs) auto

lemma find_map: "find P (map f xs) = map_option f (find (P \<circ> f) xs)"
  by (induction xs) auto

lemma find_cong_set: "(\<And>x. x \<in> set xs \<Longrightarrow> P x = Q x) \<Longrightarrow> find P xs = find Q xs"
  by (induction xs) auto

lemma find_snoc_False: "\<not> P x \<Longrightarrow> find P (xs @ [x]) = find P xs"
  by (induction xs) auto

lemma map_option_find_cong:
  "(\<And>x. P x \<Longrightarrow> f x = g x) \<Longrightarrow> map_option f (find P xs) = map_option g (find P xs)"
  by (induction xs) auto

lemma match_at_run:
  assumes "i < length s"
  shows "match_at d s i \<longleftrightarrow>
     (d (s ! i) \<and> (i = 0 \<or> \<not> d (s ! (i - 1)))) \<and> length (takeWhile d (drop i s)) = 6"
proof -
  have hd: "6 \<le> length (drop i s) \<Longrightarrow> list_all d (take 6 (drop i s)) \<Longrightarrow> d (s ! i)"
  proof -
    assume a: "6 \<le> length (drop i s)" and b: "list_all d (take 6 (drop i s))"
    have "take 6 (drop i s) ! 0 = s ! i" using a assms by simp
    moreover have "0 < length (take 6 (drop i s))" using a by simp
    ultimately show "d (s ! i)" using b by (metis list_all_length)
  qed
  have nd: "takeWhile d (drop i s) \<noteq> [] \<Longrightarrow> d (s ! i)"
    using assms by (cases "drop i s") (auto simp: hd_drop_conv_nth split: if_splits dest: arg_cong[where f=hd])
  show ?thesis
    unfolding match_at_def length_takeWhile_eq[of d "drop i s" 6]
    using assms hd by (auto simp: nth_drop)
qed

lemma match_at_end: "\<not> match_at d s (length s)"
  by (simp add: match_at_def)

lemma match_at_group: "match_at d s i \<Longrightarrow> takeWhile d (drop i s) = take 6 (drop i s)"
proof -
  assume m: "match_at d s i"
  then have "i < length s" by (simp add: match_at_def)
  with m have "length (takeWhile d (drop i s)) = 6" by (simp add: match_at_run)
  then show ?thesis by (metis takeWhile_eq_take)
qed

lemma re_search_refines: "re_search d s = first_run_of_six d s"
proof -
  let ?Q = "\<lambda>i. d (s ! i) \<and> (i = 0 \<or> \<not> d (s ! (i - 1)))"
  let ?f = "\<lambda>i. (i, takeWhile d (drop i s))"
  have "first_run_of_six d s =
      map_option ?f (find (\<lambda>i. ?Q i \<and> length (takeWhile d (drop i s)) = 6) [0..<length s])"
    by (simp add: first_run_of_six_def digit_runs_def run_starts_def find_map find_filter comp_def)
  also have "\<dots> = map_option ?f (find (match_at d s) [0..<length s])"
    by (rule arg_cong[where f="map_option ?f"], rule find_cong_set) (simp add: match_at_run)
  also have "\<dots> = map_option (\<lambda>i. (i, take 6 (drop i s))) (find (match_at d s) [0..<length s])"
    by (rule map_option_find_cong) (simp add: match_at_group)
  also have "\<dots> = re_search d s"
    by (simp add: re_search_def find_snoc_False match_at_end)
  finally show ?thesis by simp
qed


lemma list_all_range:
  assumes "list_all d (take n (drop a s))" "a + n \<le> length s" "a \<le> p" "p < a + n"
  shows "d (s ! p)"
proof -
  have "p - a < length (take n (drop a s))" using assms by simp
  then have "d (take n (drop a s) ! (p - a))" using assms(1) by (simp add: list_all_length)
  then show ?thesis using assms by simp
qed

lemma re_search_SomeD:
  assumes "re_search d s = Some (i, c)"
  shows "match_at d s i" "c = take 6 (drop i s)"
  using assms by (auto simp: re_search_def find_Some_iff)

lemma re_search_group:
  assumes "re_search d s = Some (i, c)"
  shows "c = take 6 (drop i s) \<and> length c = 6 \<and> list_all d c \<and>
         (i = 0 \<or> \<not> d (s ! (i - 1))) \<and> (i + 6 = length s \<or> \<not> d (s ! (i + 6)))"
  using re_search_SomeD[OF assms] by (auto simp: match_at_def)

lemma re_search_not_in_long_run:
  assumes "re_search d s = Some (i, c)" "7 \<le> n" "a + n \<le> length s"
    "list_all d (take n (drop a s))"
  shows "\<not> (a \<le> i \<and> i + 6 \<le> a + n)"
proof
  assume in_run: "a \<le> i \<and> i + 6 \<le> a + n"
  note g = re_search_group[OF assms(1)]
  show False
  proof (cases "a < i")
    case True
    then have "d (s ! (i - 1))" using in_run assms by (intro list_all_range[of d n a s]) auto
    with True g show False by auto
  next
    case False
    then have "d (s ! (i + 6))" using in_run assms by (intro list_all_range[of d n a s]) auto
    moreover have "i + 6 \<noteq> length s" using False in_run assms by auto
    ultimately show False using g by auto
  qed
qed

lemma extract_code_no_six:
  assumes "\<forall>i. i + 6 \<le> length s \<longrightarrow> \<not> list_all d (take 6 (drop i s))"
  shows "extract_code d s = None"
  using assms by (auto simp: extract_code_def re_search_def find_None_iff match_at_def)


lemma extract_code_None_iff:
  "extract_code d s = None \<longleftrightarrow> (\<forall>r\<in>set (digit_runs d s). length (snd r) \<noteq> 6)"
  by (auto simp: extract_code_def re_search_refines first_run_of_six_def find_None_iff)

lemma re_search_group_all:
  "\<forall>i c. re_search d s = Some (i, c) \<longrightarrow>
      c = take 6 (drop i s) \<and> length c = 6 \<and> list_all d c \<and>
      (i = 0 \<or> \<not> d (s ! (i - 1))) \<and> (i + 6 = length s \<or> \<not> d (s ! (i + 6)))"
  using re_search_group by blast

lemma re_search_long_run_all:
  "\<forall>a n i c. 7 \<le> n \<and> a + n \<le> length s \<and> list_all d (take n (drop a s)) \<and>
      re_search d s = Some (i, c) \<longrightarrow> \<not> (a \<le> i \<and> i + 6 \<le> a + n)"
  using re_search_not_in_long_run by blast

text \<open>
  Claim C1. For every text, the extraction returns the first maximal run of exactly six
  digits (a run with no digit immediately before or after it), and nothing when there is no
  such run: the search of the source equals \<open>first_run_of_six\<close>, the selection written from
  the specification's words. The returned group is six digits at the match position, with no
  digit on either side; a match never lies inside a run of seven or more digits; and a text
  without six consecutive digits gives \<open>None\<close>.
\<close>

theorem extract_code_first_isolated_six:
  "re_search d s = first_run_of_six d s \<and>
   extract_code d s = map_option snd (first_run_of_six d s) \<and>
   (extract_code d s = None \<longleftrightarrow> (\<forall>r\<in>set (digit_runs d s). length (snd r) \<noteq> 6)) \<and>
   (\<forall>i c. re_search d s = Some (i, c) \<longrightarrow>
      c = take 6 (drop i s) \<and> length c = 6 \<and> list_all d c \<and>
      (i = 0 \<or> \<not> d (s ! (i - 1))) \<and> (i + 6 = length s \<or> \<not> d (s ! (i + 6)))) \<and>
   (\<forall>a n i c. 7 \<le> n \<and> a + n \<le> length s \<and> list_all d (take n (drop a s)) \<and>
      re_search d s = Some (i, c) \<longrightarrow> \<not> (a \<le> i \<and> i + 6 \<le> a + n)) \<and>
   ((\<forall>i. i + 6 \<le> length s \<longrightarrow> \<not> list_all d (take 6 (drop i s))) \<longrightarrow>
      extract_code d s = None)"
proof (intro conjI)
  show "re_search d s = first_run_of_six d s" by (rule re_search_refines)
  show "extract_code d s = map_option snd (first_run_of_six d s)"
    by (simp add: extract_code_def re_search_refines)
  show "extract_code d s = None \<longleftrightarrow> (\<forall>r\<in>set (digit_runs d s). length (snd r) \<noteq> 6)"
    by (rule extract_code_None_iff)
  show "\<forall>i c. re_search d s = Some (i, c) \<longrightarrow>
      c = take 6 (drop i s) \<and> length c = 6 \<and> list_all d c \<and>
      (i = 0 \<or> \<not> d (s ! (i - 1))) \<and> (i + 6 = length s \<or> \<not> d (s ! (i + 6)))"
    by (rule re_search_group_all)
  show "\<forall>a n i c. 7 \<le> n \<and> a + n \<le> length s \<and> list_all d (take n (drop a s)) \<and>
      re_search d s = Some (i, c) \<longrightarrow> \<not> (a \<le> i \<and> i + 6 \<le> a + n)"
    by (rule re_search_long_run_all)
  show "(\<forall>i. i + 6 \<le> length s \<longrightarrow> \<not> list_all d (take 6 (drop i s))) \<longrightarrow>
      extract_code d s = None"
    using extract_code_no_six by blast
qed

text \<open>
  The theorem at two texts: one with a seven-digit run before the code, one with no run of
  six digits.
\<close>

theorem extract_code_first_isolated_six_witness:
  "re_search ascii_digit ''id 1234567 code 482913 or 111111'' = Some (16, ''482913'') \<and>
   (7::nat) \<le> 7 \<and> 3 + 7 \<le> length ''id 1234567 code 482913 or 111111'' \<and>
   list_all ascii_digit (take 7 (drop 3 ''id 1234567 code 482913 or 111111'')) \<and>
   \<not> ((3::nat) \<le> 16 \<and> (16::nat) + 6 \<le> 3 + 7) \<and>
   first_run_of_six ascii_digit ''id 1234567 code 482913 or 111111'' = Some (16, ''482913'') \<and>
   length ''a1234'' < 6 \<and>
   extract_code ascii_digit ''a1234'' = None"
proof -
  let ?s = "''id 1234567 code 482913 or 111111''"
  note long = extract_code_first_isolated_six[of ascii_digit ?s]
  note short = extract_code_first_isolated_six[of ascii_digit "''a1234''"]
  have a: "re_search ascii_digit ?s = Some (16, ''482913'')"
    by code_simp
  have b: "list_all ascii_digit (take 7 (drop 3 ?s))"
    by code_simp
  have c: "\<forall>i. i + 6 \<le> length ''a1234'' \<longrightarrow> \<not> list_all ascii_digit (take 6 (drop i ''a1234''))"
    by simp
  have l: "(7::nat) \<le> 7 \<and> 3 + 7 \<le> length ?s" by simp
  from long a have d: "first_run_of_six ascii_digit ?s = Some (16, ''482913'')"
    by metis
  from long a b l have e: "\<not> ((3::nat) \<le> 16 \<and> (16::nat) + 6 \<le> 3 + 7)"
    by blast
  from short c have f: "extract_code ascii_digit ''a1234'' = None"
    by blast
  have g: "length ''a1234'' < 6" by simp
  from a b d e f g l show ?thesis by blast
qed

subsection \<open>Case analysis of composed actions\<close>

lemma seq_cases:
  assumes "seq m f s = Some (fl, s')"
  obtains (Next) x s1 where "m s = Some (Next x, s1)" "f x s1 = Some (fl, s')"
    | (Return) v where "m s = Some (Return v, s')" "fl = Return v"
    | (Raise) e where "m s = Some (Raise e, s')" "fl = Raise e"
proof (cases "m s")
  case None
  with assms show ?thesis by (simp add: seq_def)
next
  case (Some p)
  obtain fl1 s1 where p: "p = (fl1, s1)" by (cases p)
  show ?thesis
  proof (cases fl1)
    case (Next x)
    with assms Some p show ?thesis by (intro that(1)[of x s1]) (simp_all add: seq_def)
  next
    case (Return v)
    with assms Some p show ?thesis by (intro that(2)[of v]) (simp_all add: seq_def)
  next
    case (Raise e)
    with assms Some p show ?thesis by (intro that(3)[of e]) (simp_all add: seq_def)
  qed
qed

lemma try_except_cases:
  assumes "try_except c m h s = Some (fl, s')"
  obtains (Caught) e s1 where "m s = Some (Raise e, s1)" "c e" "h e s1 = Some (fl, s')"
    | (Passed) "m s = Some (fl, s')" "\<forall>e. fl = Raise e \<longrightarrow> \<not> c e"
proof (cases "m s")
  case None
  with assms show ?thesis by (simp add: try_except_def)
next
  case (Some p)
  obtain fl1 s1 where p: "p = (fl1, s1)" by (cases p)
  show ?thesis
  proof (cases fl1)
    case (Next x)
    with assms Some p show ?thesis by (intro that(2)) (auto simp: try_except_def)
  next
    case (Return v)
    with assms Some p show ?thesis by (intro that(2)) (auto simp: try_except_def)
  next
    case (Raise e)
    show ?thesis
    proof (cases "c e")
      case True
      with assms Some p Raise show ?thesis
        by (intro that(1)[of e s1]) (simp_all add: try_except_def)
    next
      case False
      with assms Some p Raise show ?thesis by (intro that(2)) (auto simp: try_except_def)
    qed
  qed
qed

lemma try_finally_cases:
  assumes "try_finally m f s = Some (fl, s')"
  obtains (Done) s1 u where "m s = Some (fl, s1)" "f s1 = Some (Next u, s')"
    | (Return) fl1 s1 v where "m s = Some (fl1, s1)" "f s1 = Some (Return v, s')" "fl = Return v"
    | (Raise) fl1 s1 e where "m s = Some (fl1, s1)" "f s1 = Some (Raise e, s')" "fl = Raise e"
proof (cases "m s")
  case None
  with assms show ?thesis by (simp add: try_finally_def)
next
  case (Some p)
  obtain fl1 s1 where p: "p = (fl1, s1)" by (cases p)
  show ?thesis
  proof (cases "f s1")
    case None
    with assms Some p show ?thesis by (simp add: try_finally_def)
  next
    case (Some q)
    obtain fl2 s2 where q: "q = (fl2, s2)" by (cases q)
    show ?thesis
    proof (cases fl2)
      case (Next u)
      with assms \<open>m s = Some p\<close> p Some q show ?thesis
        by (intro that(1)[of s1 u]) (simp_all add: try_finally_def)
    next
      case (Return v)
      with assms \<open>m s = Some p\<close> p Some q show ?thesis
        by (intro that(2)[of fl1 s1 v]) (simp_all add: try_finally_def)
    next
      case (Raise e)
      with assms \<open>m s = Some p\<close> p Some q show ?thesis
        by (intro that(3)[of fl1 s1 e]) (simp_all add: try_finally_def)
    qed
  qed
qed

lemma ext_cases:
  assumes "ext ev out s = Some (fl, s')"
  obtains (Returned) x where "out = Returned x" "fl = Next x" "s' = s\<lparr>trace := trace s @ [ev]\<rparr>"
    | (Raised) e where "out = Raised e" "fl = Raise e" "s' = s\<lparr>trace := trace s @ [ev]\<rparr>"
  using assms
  by (cases out) (auto simp: ext_def seq_def emit_def unit_act_def raise_def)

lemma call_cases:
  assumes "call res s = Some (fl, s')"
  obtains (Returned) v evs where "res = Some (Returned v, evs)" "fl = Next v"
      "s' = s\<lparr>trace := trace s @ evs\<rparr>"
    | (Raised) e evs where "res = Some (Raised e, evs)" "fl = Raise e"
      "s' = s\<lparr>trace := trace s @ evs\<rparr>"
proof (cases res)
  case None
  with assms show ?thesis by (simp add: call_def)
next
  case (Some p)
  obtain r evs where p: "p = (r, evs)" by (cases p)
  show ?thesis
  proof (cases r)
    case (Returned v)
    with assms Some p show ?thesis by (intro that(1)[of v evs]) (auto simp: call_def)
  next
    case (Raised e)
    with assms Some p show ?thesis by (intro that(2)[of e evs]) (auto simp: call_def)
  qed
qed

lemma run_cases:
  assumes "run m s0 tr = Some (r, evs)"
  obtains fl s where "m s0 = Some (fl, s)" "evs = tr s"
    "r = (case fl of Next v \<Rightarrow> Returned v | Return v \<Rightarrow> Returned v | Raise e \<Rightarrow> Raised e)"
proof (cases "m s0")
  case None
  with assms show ?thesis by (simp add: run_def)
next
  case (Some p)
  obtain fl s where p: "p = (fl, s)" by (cases p)
  with assms Some show ?thesis
    by (intro that[of fl s]) (auto simp: run_def split: flow.splits)
qed

subsection \<open>Invariants of actions\<close>

lemma stableD: "stable I m \<Longrightarrow> I s \<Longrightarrow> m s = Some (fl, s') \<Longrightarrow> I s'"
  unfolding stable_def by blast

lemma stableI: "(\<And>s fl s'. I s \<Longrightarrow> m s = Some (fl, s') \<Longrightarrow> I s') \<Longrightarrow> stable I m"
  unfolding stable_def by blast

lemma stable_unit_act [stable_intros]: "stable I (unit_act x)"
  by (simp add: stable_def unit_act_def)

lemma stable_ret [stable_intros]: "stable I (ret v)"
  by (simp add: stable_def ret_def)

lemma stable_raise [stable_intros]: "stable I (raise e)"
  by (simp add: stable_def raise_def)

lemma stable_seq [stable_intros]:
  assumes "stable I m" "\<And>x. stable I (f x)"
  shows "stable I (seq m f)"
proof (rule stableI)
  fix s fl s' assume I: "I s" and r: "seq m f s = Some (fl, s')"
  from r show "I s'"
  proof (cases rule: seq_cases)
    case (Next x s1)
    from stableD[OF assms(1) I Next(1)] have "I s1" .
    from stableD[OF assms(2) this Next(2)] show ?thesis .
  next
    case (Return v)
    from stableD[OF assms(1) I Return(1)] show ?thesis .
  next
    case (Raise e)
    from stableD[OF assms(1) I Raise(1)] show ?thesis .
  qed
qed

lemma stable_try_except [stable_intros]:
  assumes "stable I m" "\<And>e. stable I (h e)"
  shows "stable I (try_except c m h)"
proof (rule stableI)
  fix s fl s' assume I: "I s" and r: "try_except c m h s = Some (fl, s')"
  from r show "I s'"
  proof (cases rule: try_except_cases)
    case (Caught e s1)
    from stableD[OF assms(1) I Caught(1)] have "I s1" .
    from stableD[OF assms(2) this Caught(3)] show ?thesis .
  next
    case Passed
    from stableD[OF assms(1) I Passed(1)] show ?thesis .
  qed
qed

lemma stable_try_finally [stable_intros]:
  assumes "stable I m" "stable I f"
  shows "stable I (try_finally m f)"
proof (rule stableI)
  fix s fl s' assume I: "I s" and r: "try_finally m f s = Some (fl, s')"
  from r show "I s'"
  proof (cases rule: try_finally_cases)
    case (Done s1 u)
    from stableD[OF assms(1) I Done(1)] have "I s1" .
    from stableD[OF assms(2) this Done(2)] show ?thesis .
  next
    case (Return fl1 s1 v)
    from stableD[OF assms(1) I Return(1)] have "I s1" .
    from stableD[OF assms(2) this Return(2)] show ?thesis .
  next
    case (Raise fl1 s1 e)
    from stableD[OF assms(1) I Raise(1)] have "I s1" .
    from stableD[OF assms(2) this Raise(2)] show ?thesis .
  qed
qed

lemma stable_if [stable_intros]:
  "(b \<Longrightarrow> stable I m) \<Longrightarrow> (\<not> b \<Longrightarrow> stable I n) \<Longrightarrow> stable I (if b then m else n)"
  by simp

lemma stable_emit:
  "(\<And>s. I s \<Longrightarrow> I (s\<lparr>trace := trace s @ [e]\<rparr>)) \<Longrightarrow> stable I (emit e)"
  by (rule stableI) (auto simp: emit_def)

lemma stable_ext:
  assumes "\<And>s. I s \<Longrightarrow> I (s\<lparr>trace := trace s @ [e]\<rparr>)"
  shows "stable I (ext e out)"
proof (rule stableI)
  fix s fl s' assume I: "I s" and r: "ext e out s = Some (fl, s')"
  from r show "I s'" by (cases rule: ext_cases) (simp_all add: assms[OF I])
qed

lemma stable_call:
  assumes "\<And>s r evs. I s \<Longrightarrow> res = Some (r, evs) \<Longrightarrow> I (s\<lparr>trace := trace s @ evs\<rparr>)"
  shows "stable I (call res)"
proof (rule stableI)
  fix s fl s' assume I: "I s" and r: "call res s = Some (fl, s')"
  from r show "I s'" by (cases rule: call_cases) (simp_all add: assms[OF I])
qed

lemma total_unit_act [total_intros]: "total (unit_act x)"
  by (simp add: total_def unit_act_def)

lemma total_ret [total_intros]: "total (ret v)"
  by (simp add: total_def ret_def)

lemma total_raise [total_intros]: "total (raise e)"
  by (simp add: total_def raise_def)

lemma total_emit [total_intros]: "total (emit e)"
  by (simp add: total_def emit_def)

lemma totalD:
  assumes "total m"
  shows "\<exists>fl s'. m s = Some (fl, s')"
proof -
  from assms have "m s \<noteq> None" unfolding total_def by (rule spec)
  then show ?thesis by (cases "m s") auto
qed

lemma total_seq [total_intros]:
  assumes "total m" "\<And>x. total (f x)"
  shows "total (seq m f)"
  unfolding total_def
proof
  fix s
  obtain fl s1 where m: "m s = Some (fl, s1)" using totalD[OF assms(1)] by blast
  show "seq m f s \<noteq> None"
  proof (cases fl)
    case (Next x)
    then show ?thesis using m totalD[OF assms(2), of x s1] by (auto simp: seq_def)
  qed (simp_all add: seq_def m)
qed

lemma total_try_except [total_intros]:
  assumes "total m" "\<And>e. total (h e)"
  shows "total (try_except c m h)"
  unfolding total_def
proof
  fix s
  obtain fl s1 where m: "m s = Some (fl, s1)" using totalD[OF assms(1)] by blast
  show "try_except c m h s \<noteq> None"
  proof (cases fl)
    case (Raise e)
    then show ?thesis using m totalD[OF assms(2), of e s1] by (auto simp: try_except_def)
  qed (simp_all add: try_except_def m)
qed

lemma total_try_finally [total_intros]:
  assumes "total m" "total f"
  shows "total (try_finally m f)"
  unfolding total_def
proof
  fix s
  obtain fl s1 where m: "m s = Some (fl, s1)" using totalD[OF assms(1)] by blast
  obtain fl2 s2 where f: "f s1 = Some (fl2, s2)" using totalD[OF assms(2)] by blast
  show "try_finally m f s \<noteq> None"
    by (cases fl2) (simp_all add: try_finally_def m f)
qed

lemma total_if [total_intros]:
  "(b \<Longrightarrow> total m) \<Longrightarrow> (\<not> b \<Longrightarrow> total n) \<Longrightarrow> total (if b then m else n)"
  by simp

lemma total_ext [total_intros]: "total (ext e out)"
  unfolding ext_def by (cases out) (auto intro!: total_seq total_emit total_unit_act total_raise)

lemma total_log [total_intros]: "total (log l m)"
  unfolding log_def by (rule total_emit)

lemma total_sleep [total_intros]: "total (sleep n)"
  unfolding sleep_def by (rule total_emit)

lemma total_browser [total_intros]: "total (browser w c)"
  unfolding browser_def by (rule total_ext)

lemma total_call [total_intros]:
  assumes "res \<noteq> None"
  shows "total (call res)"
proof -
  from assms obtain r evs where res: "res = Some (r, evs)" by (cases res) auto
  show ?thesis unfolding total_def by (cases r) (simp_all add: call_def res)
qed

lemma run_total: "total m \<Longrightarrow> run m s tr \<noteq> None"
proof -
  assume t: "total m"
  from totalD[OF t, of s] obtain fl s1 where "m s = Some (fl, s1)" by blast
  then show ?thesis by (cases fl) (simp_all add: run_def)
qed

lemma run_events:
  assumes "stable (\<lambda>s. list_all Q (tr s)) m" "list_all Q (tr s0)" "run m s0 tr = Some (r, evs)"
  shows "list_all Q evs"
  using assms(3)
proof (cases rule: run_cases)
  case (1 fl s)
  from stableD[OF assms(1) assms(2) 1(1)] 1(2) show ?thesis by simp
qed

lemma seq_emit_apply: "seq (emit e) f s = f () (s\<lparr>trace := trace s @ [e]\<rparr>)"
  by (simp add: seq_def emit_def)

lemma seq_log_apply: "seq (log l m) f s = f () (s\<lparr>trace := trace s @ [Log l m]\<rparr>)"
  by (simp add: log_def seq_emit_apply)

lemma seq_sleep_apply: "seq (sleep n) f s = f () (s\<lparr>trace := trace s @ [Sleep n]\<rparr>)"
  by (simp add: sleep_def seq_emit_apply)

lemma seq_value:
  "m s = Some (Next x, s1) \<Longrightarrow> seq m f s = f x s1"
  "m s = Some (Return v, s1) \<Longrightarrow> seq m f s = Some (Return v, s1)"
  "m s = Some (Raise e, s1) \<Longrightarrow> seq m f s = Some (Raise e, s1)"
  by (simp_all add: seq_def)

subsection \<open>Values of early returns\<close>

lemma returnsD: "returns P m \<Longrightarrow> m s = Some (Return v, s') \<Longrightarrow> P v"
  unfolding returns_def by blast

lemma returnsI: "(\<And>s s' v. m s = Some (Return v, s') \<Longrightarrow> P v) \<Longrightarrow> returns P m"
  unfolding returns_def by blast

lemma returns_unit_act [returns_intros]: "returns P (unit_act x)"
  by (simp add: returns_def unit_act_def)

lemma returns_raise [returns_intros]: "returns P (raise e)"
  by (simp add: returns_def raise_def)

lemma returns_ret [returns_intros]: "P v \<Longrightarrow> returns P (ret v)"
  by (simp add: returns_def ret_def)

lemma returns_emit [returns_intros]: "returns P (emit e)"
  by (simp add: returns_def emit_def)

lemma returns_log [returns_intros]: "returns P (log l m)"
  unfolding log_def by (rule returns_emit)

lemma returns_sleep [returns_intros]: "returns P (sleep n)"
  unfolding sleep_def by (rule returns_emit)

lemma returns_ext [returns_intros]: "returns P (ext e out)"
  by (rule returnsI) (erule ext_cases; simp)

lemma returns_browser [returns_intros]: "returns P (browser w c)"
  unfolding browser_def by (rule returns_ext)

lemma returns_call [returns_intros]: "returns P (call res)"
  by (rule returnsI) (erule call_cases; simp)

lemma returns_seq [returns_intros]:
  assumes "returns P m" "\<And>x. returns P (f x)"
  shows "returns P (seq m f)"
proof (rule returnsI)
  fix s s' v assume "seq m f s = Some (Return v, s')"
  then show "P v"
  proof (cases rule: seq_cases)
    case (Next x s1)
    from returnsD[OF assms(2) Next(2)] show ?thesis .
  next
    case (Return v')
    from returnsD[OF assms(1) Return(1)] Return(2) show ?thesis by simp
  next
    case (Raise e)
    then show ?thesis by simp
  qed
qed

lemma returns_try_except [returns_intros]:
  assumes "returns P m" "\<And>e. returns P (h e)"
  shows "returns P (try_except c m h)"
proof (rule returnsI)
  fix s s' v assume "try_except c m h s = Some (Return v, s')"
  then show "P v"
  proof (cases rule: try_except_cases)
    case (Caught e s1)
    from returnsD[OF assms(2) Caught(3)] show ?thesis .
  next
    case Passed
    from returnsD[OF assms(1) Passed(1)] show ?thesis .
  qed
qed

lemma returns_try_finally [returns_intros]:
  assumes "returns P m" "returns P f"
  shows "returns P (try_finally m f)"
proof (rule returnsI)
  fix s s' v assume "try_finally m f s = Some (Return v, s')"
  then show "P v"
  proof (cases rule: try_finally_cases)
    case (Done s1 u)
    from returnsD[OF assms(1) Done(1)] show ?thesis .
  next
    case (Return fl1 s1 v')
    from returnsD[OF assms(2) Return(2)] Return(3) show ?thesis by simp
  next
    case (Raise fl1 s1 e)
    then show ?thesis by simp
  qed
qed

lemma returns_if [returns_intros]:
  "(b \<Longrightarrow> returns P m) \<Longrightarrow> (\<not> b \<Longrightarrow> returns P n) \<Longrightarrow> returns P (if b then m else n)"
  by simp

lemmas act_defs = seq_def try_except_def try_finally_def emit_def log_def sleep_def ext_def
  ret_def unit_act_def raise_def run_def call_def browser_def

lemma upload_empty:
  "upload_to_server p key [] = Some (Returned True, [Stdout (''CLIENT_KEY:'' @ key)])"
  by (simp add: upload_to_server_def act_defs start_def)

lemma upload_status:
  "url \<noteq> [] \<Longrightarrow> upload_to_server (Returned st) key url =
     Some (Returned (st = 200 \<or> st = 201),
       [Stdout (''CLIENT_KEY:'' @ key), Log INFO UploadStart,
        Http (PostCredential (url @ ''/api/orchids/credentials'') key),
        if st = 200 \<or> st = 201 then Log INFO UploadSaved else Log ERR UploadRejected])"
  by (simp add: upload_to_server_def act_defs start_def)

lemma upload_raised:
  "url \<noteq> [] \<Longrightarrow> upload_to_server (Raised e) key url =
     Some (if is_Exception e then Returned False else Raised e,
       [Stdout (''CLIENT_KEY:'' @ key), Log INFO UploadStart,
        Http (PostCredential (url @ ''/api/orchids/credentials'') key)] @
        (if is_Exception e then [Log ERR UploadException] else []))"
  by (simp add: upload_to_server_def act_defs start_def)

lemma poll_step_raises:
  "fetch box n = FetchRaises e \<Longrightarrow>
   poll_step box email n s = Some (Next (), s\<lparr>trace := trace s @ [Http (MailList email)]\<rparr>)"
  by (simp add: poll_step_def poll_once_def act_defs any_exc_def)

lemma poll_step_bad:
  "fetch box n = BadLatest e \<Longrightarrow>
   poll_step box email n s = Some (Next (), s\<lparr>trace := trace s @ [Http (MailList email)]\<rparr>)"
  by (simp add: poll_step_def poll_once_def act_defs any_exc_def)

lemma poll_step_empty:
  "fetch box n = NoMessages \<Longrightarrow>
   poll_step box email n s =
     Some (Next (), s\<lparr>trace := trace s @ [Http (MailList email), Sleep 3]\<rparr>)"
  by (simp add: poll_step_def poll_once_def act_defs any_exc_def)

lemma poll_step_seen:
  "fetch box n = Latest i subject raw \<Longrightarrow> i \<in> processed_ids s \<Longrightarrow>
   poll_step box email n s =
     Some (Next (), s\<lparr>trace := trace s @ [Http (MailList email), Sleep 3]\<rparr>)"
  by (simp add: poll_step_def poll_once_def act_defs any_exc_def get_processed_def)

lemma poll_step_new:
  "fetch box n = Latest i subject raw_content \<Longrightarrow> i \<notin> processed_ids s \<Longrightarrow>
   poll_step box email n s =
     (case raw_content of
        None \<Rightarrow> Some (Next (), s\<lparr>trace := trace s @ [Http (MailList email)],
                   processed_ids := insert i (processed_ids s)\<rparr>)
      | Some raw \<Rightarrow>
          Some (fst (inspect box subject raw),
            s\<lparr>trace := trace s @ [Http (MailList email), Log INFO MailReceived]
                  @ snd (inspect box subject raw),
              processed_ids := insert i (processed_ids s),
              searched := searched s @ [i]\<rparr>))"
  by (simp add: poll_step_def poll_once_def act_defs any_exc_def get_processed_def
      add_processed_def note_searched_def inspect_def split: option.splits)

lemma inspect_flow: "fst (inspect box subject raw) \<noteq> Raise e"
  by (simp add: inspect_def split: option.splits)

lemma inspect_events:
  "set (snd (inspect box subject raw)) \<subseteq> {Log INFO CodeFound, Sleep 3}"
  by (simp add: inspect_def split: option.splits)

lemma poll_step_props:
  assumes "poll_step box email n s = Some (fl, s')"
  shows "processed_ids s \<subseteq> processed_ids s'"
    and "dedup s \<Longrightarrow> dedup s'"
    and "fl \<noteq> Raise e"
    and "\<exists>evs. trace s' = trace s @ evs \<and> set evs \<subseteq> mail_events email"
    and "searched s' = searched s \<or>
         (\<exists>i. searched s' = searched s @ [i] \<and> i \<notin> processed_ids s \<and> i \<in> processed_ids s')"
proof -
  have "processed_ids s \<subseteq> processed_ids s' \<and> (dedup s \<longrightarrow> dedup s') \<and> fl \<noteq> Raise e \<and>
    (\<exists>evs. trace s' = trace s @ evs \<and> set evs \<subseteq> mail_events email) \<and>
    (searched s' = searched s \<or>
         (\<exists>i. searched s' = searched s @ [i] \<and> i \<notin> processed_ids s \<and> i \<in> processed_ids s'))"
  proof (cases "fetch box n")
    case (FetchRaises x)
    from assms show ?thesis
      by (auto simp: poll_step_raises[OF FetchRaises] dedup_def mail_events_def)
  next
    case NoMessages
    from assms show ?thesis
      by (auto simp: poll_step_empty[OF NoMessages] dedup_def mail_events_def)
  next
    case (BadLatest x)
    from assms show ?thesis
      by (auto simp: poll_step_bad[OF BadLatest] dedup_def mail_events_def)
  next
    case (Latest i subject raw_content)
    show ?thesis
    proof (cases "i \<in> processed_ids s")
      case True
      from assms show ?thesis
        by (auto simp: poll_step_seen[OF Latest True] dedup_def mail_events_def)
    next
      case False
      show ?thesis
      proof (cases raw_content)
        case None
        from assms show ?thesis
          by (auto simp: poll_step_new[OF Latest False] None dedup_def mail_events_def)
      next
        case (Some raw)
        from assms have fl: "fl = fst (inspect box subject raw)"
          and s': "s' = s\<lparr>trace := trace s @ [Http (MailList email), Log INFO MailReceived]
                  @ snd (inspect box subject raw),
              processed_ids := insert i (processed_ids s),
              searched := searched s @ [i]\<rparr>"
          by (simp_all add: poll_step_new[OF Latest False] Some)
        have ev: "set ([Http (MailList email), Log INFO MailReceived]
                  @ snd (inspect box subject raw)) \<subseteq> mail_events email"
          using inspect_events[of box subject raw] by (auto simp: mail_events_def)
        have tr: "trace s' = trace s @ ([Http (MailList email), Log INFO MailReceived]
                  @ snd (inspect box subject raw))"
          by (simp add: s')
        have "\<exists>evs. trace s' = trace s @ evs \<and> set evs \<subseteq> mail_events email"
          using ev tr by blast
        moreover have "processed_ids s \<subseteq> processed_ids s'" by (auto simp: s')
        moreover have "dedup s \<longrightarrow> dedup s'" using False by (auto simp: s' dedup_def)
        moreover have "fl \<noteq> Raise e" by (simp add: fl inspect_flow)
        moreover have "\<exists>i. searched s' = searched s @ [i] \<and> i \<notin> processed_ids s \<and> i \<in> processed_ids s'"
          using False by (auto simp: s')
        ultimately show ?thesis by blast
      qed
    qed
  qed
  then show "processed_ids s \<subseteq> processed_ids s'"
    and "dedup s \<Longrightarrow> dedup s'"
    and "fl \<noteq> Raise e"
    and "\<exists>evs. trace s' = trace s @ evs \<and> set evs \<subseteq> mail_events email"
    and "searched s' = searched s \<or>
         (\<exists>i. searched s' = searched s @ [i] \<and> i \<notin> processed_ids s \<and> i \<in> processed_ids s')"
    by blast+
qed

lemma poll_step_total: "poll_step box email n s \<noteq> None"
proof (cases "fetch box n")
  case (Latest i subject raw_content)
  show ?thesis
  proof (cases "i \<in> processed_ids s")
    case True
    then show ?thesis by (simp add: poll_step_seen[OF Latest])
  next
    case False
    then show ?thesis by (simp add: poll_step_new[OF Latest] split: option.splits)
  qed
qed (simp_all add: poll_step_raises poll_step_bad poll_step_empty)

lemma poll_loop_props:
  assumes "poll_loop box email n s = Some y"
  shows "processed_ids s \<subseteq> processed_ids (snd y) \<and> (dedup s \<longrightarrow> dedup (snd y)) \<and>
     (\<forall>e. fst y \<noteq> Raise e) \<and>
     (\<exists>evs. trace (snd y) = trace s @ evs \<and> set evs \<subseteq> mail_events email)"
  using assms
proof (induction box email n s y rule: poll_loop.raw_induct[rotated 1, consumes 1])
  case (1 loop box email n s y)
  show ?case
  proof (cases "clock box (Suc n) - clock box 0 < 120")
    case False
    with 1(2) show ?thesis by auto
  next
    case True
    with 1(2) have r: "(case poll_step box email n s of
           None \<Rightarrow> None
         | Some (Next u, s') \<Rightarrow> loop box email (Suc n) s'
         | Some (Return v, s') \<Rightarrow> Some (Return v, s')
         | Some (Raise e, s') \<Rightarrow> Some (Raise e, s')) = Some y" by simp
    obtain fl s1 where st: "poll_step box email n s = Some (fl, s1)"
      using poll_step_total[of box email n s] by (cases "poll_step box email n s") auto
    note p = poll_step_props[OF st]
    show ?thesis
    proof (cases fl)
      case (Next u)
      with r st have "loop box email (Suc n) s1 = Some y" by simp
      from 1(1)[OF this] have ih1: "processed_ids s1 \<subseteq> processed_ids (snd y)"
        and ih2: "dedup s1 \<longrightarrow> dedup (snd y)" and ih3: "\<forall>e. fst y \<noteq> Raise e"
        and ih4: "\<exists>evs. trace (snd y) = trace s1 @ evs \<and> set evs \<subseteq> mail_events email"
        by blast+
      from p(4) obtain evs1 where e1: "trace s1 = trace s @ evs1" "set evs1 \<subseteq> mail_events email"
        by blast
      from ih4 obtain evs2 where e2: "trace (snd y) = trace s1 @ evs2"
        "set evs2 \<subseteq> mail_events email" by blast
      have "trace (snd y) = trace s @ (evs1 @ evs2) \<and> set (evs1 @ evs2) \<subseteq> mail_events email"
        using e1 e2 by simp
      then have "\<exists>evs. trace (snd y) = trace s @ evs \<and> set evs \<subseteq> mail_events email"
        by blast
      moreover have "processed_ids s \<subseteq> processed_ids (snd y)" using p(1) ih1 by blast
      moreover have "dedup s \<longrightarrow> dedup (snd y)" using p(2) ih2 by blast
      ultimately show ?thesis using ih3 by blast
    next
      case (Return v)
      with r st have "y = (Return v, s1)" by simp
      with p(1,2,4) show ?thesis by auto
    next
      case (Raise e)
      with p(3)[of e] show ?thesis by simp
    qed
  qed
qed

lemma poll_loop_terminates:
  assumes "\<not> clock box (Suc N) - clock box 0 < 120" "n \<le> N"
  shows "poll_loop box email n s \<noteq> None"
  using assms(2)
proof (induction "N - n" arbitrary: n s)
  case 0
  then have "n = N" by simp
  with assms(1) show ?case by (subst poll_loop.simps) simp
next
  case (Suc d)
  show ?case
  proof (cases "clock box (Suc n) - clock box 0 < 120")
    case False
    then show ?thesis by (subst poll_loop.simps) simp
  next
    case True
    obtain fl s1 where st: "poll_step box email n s = Some (fl, s1)"
      using poll_step_total[of box email n s] by (cases "poll_step box email n s") auto
    have nN: "Suc n \<le> N" "d = N - Suc n" using Suc(2,3) by simp_all
    have "poll_loop box email (Suc n) s1 \<noteq> None" using Suc(1)[OF nN(2) nN(1)] .
    then show ?thesis using True st by (subst poll_loop.simps) (cases fl; simp)
  qed
qed

lemma wait_for_code_body_props:
  fixes box :: "'i mailbox"
  assumes "wait_for_code_body box email poll_start = Some (fl, s')"
  shows "dedup s'" and "\<exists>v. fl = Return v" and "set (trace s') \<subseteq> mail_events email"
proof -
  define s0 :: "'i poll"
    where "s0 = \<lparr>trace = [Log INFO MailListen], processed_ids = {}, searched = []\<rparr>"
  from assms have r: "seq (poll_loop box email 0) (\<lambda>_. ret None) s0 = Some (fl, s')"
    by (simp add: wait_for_code_body_def seq_log_apply s0_def poll_start_def)
  have d0: "dedup s0" by (simp add: dedup_def s0_def)
  have t0: "trace s0 = [Log INFO MailListen]" by (simp add: s0_def)
  have "dedup s' \<and> (\<exists>v. fl = Return v) \<and> set (trace s') \<subseteq> mail_events email"
    using r
  proof (cases rule: seq_cases)
    case (Next x s1)
    from poll_loop_props[OF Next(1)] d0 t0 Next(2) show ?thesis
      by (auto simp: ret_def mail_events_def)
  next
    case (Return v)
    from poll_loop_props[OF Return(1)] d0 t0 Return(2) show ?thesis
      by (auto simp: mail_events_def)
  next
    case (Raise e)
    from poll_loop_props[OF Raise(1)] show ?thesis by simp
  qed
  then show "dedup s'" and "\<exists>v. fl = Return v" and "set (trace s') \<subseteq> mail_events email"
    by blast+
qed

lemma wait_for_code_never_raises: "wait_for_code box email \<noteq> Some (Raised e, tr)"
proof
  assume "wait_for_code box email = Some (Raised e, tr)"
  then show False unfolding wait_for_code_def
  proof (cases rule: run_cases)
    case (1 fl s)
    from wait_for_code_body_props(2)[OF 1(1)] 1(3) show ?thesis by auto
  qed
qed

lemma wait_for_code_events:
  assumes "wait_for_code box email = Some (r, tr)"
  shows "set tr \<subseteq> mail_events email"
  using assms unfolding wait_for_code_def
proof (cases rule: run_cases)
  case (1 fl s)
  from wait_for_code_body_props(3)[OF 1(1)] 1(2) show ?thesis by simp
qed

lemma wait_for_code_returns:
  fixes box :: "'i mailbox"
  assumes "\<not> clock box (Suc N) - clock box 0 < 120"
  shows "\<exists>r tr. wait_for_code box email = Some (Returned r, tr)"
proof -
  define s0 :: "'i poll"
    where "s0 = \<lparr>trace = [Log INFO MailListen], processed_ids = {}, searched = []\<rparr>"
  obtain y where y: "poll_loop box email 0 s0 = Some y"
    using poll_loop_terminates[OF assms, of 0 email s0] by auto
  obtain fl s1 where fs: "y = (fl, s1)" by (cases y)
  have "wait_for_code_body box email poll_start =
      seq (poll_loop box email 0) (\<lambda>_. ret None) s0"
    by (simp add: wait_for_code_body_def seq_log_apply s0_def poll_start_def)
  then have "wait_for_code_body box email poll_start \<noteq> None"
    using y fs by (cases fl) (simp_all add: seq_value ret_def)
  then obtain fl' s' where b: "wait_for_code_body box email poll_start = Some (fl', s')"
    by (cases "wait_for_code_body box email poll_start") auto
  from wait_for_code_body_props(2)[OF b] obtain v where "fl' = Return v" by blast
  with b show ?thesis by (simp add: wait_for_code_def run_def)
qed

lemma appendsD: "appends Q I \<Longrightarrow> I s \<Longrightarrow> Q e \<Longrightarrow> I (s\<lparr>trace := trace s @ [e]\<rparr>)"
  unfolding appends_def by blast

lemma appends_list:
  assumes "appends Q I"
  shows "I s \<Longrightarrow> list_all Q evs \<Longrightarrow> I (s\<lparr>trace := trace s @ evs\<rparr>)"
proof (induction evs arbitrary: s)
  case Nil
  then show ?case by simp
next
  case (Cons e evs)
  from Cons.prems have "I (s\<lparr>trace := trace s @ [e]\<rparr>)" by (auto intro: appendsD[OF assms])
  from Cons.IH[OF this] Cons.prems(2) show ?case by simp
qed

lemma stable_emit_q: "appends Q I \<Longrightarrow> Q e \<Longrightarrow> stable I (emit e)"
  by (rule stable_emit) (erule (1) appendsD)

lemma stable_log_q: "appends Q I \<Longrightarrow> Q (Log l m) \<Longrightarrow> stable I (log l m)"
  unfolding log_def by (rule stable_emit_q)

lemma stable_sleep_q: "appends Q I \<Longrightarrow> Q (Sleep n) \<Longrightarrow> stable I (sleep n)"
  unfolding sleep_def by (rule stable_emit_q)

lemma stable_ext_q: "appends Q I \<Longrightarrow> Q e \<Longrightarrow> stable I (ext e out)"
  by (rule stable_ext) (erule (1) appendsD)

lemma stable_browser_q: "appends Q I \<Longrightarrow> Q (Browser c) \<Longrightarrow> stable I (browser w c)"
  unfolding browser_def by (rule stable_ext_q)

lemma stable_call_q:
  assumes "appends Q I" "\<And>r evs. res = Some (r, evs) \<Longrightarrow> list_all Q evs"
  shows "stable I (call res)"
  by (rule stable_call) (auto intro: appends_list[OF assms(1)] assms(2))

lemma appends_list_all: "appends Q (\<lambda>s. list_all Q (trace s))"
  by (simp add: appends_def)

lemmas quiet_intros = stable_emit_q stable_log_q stable_sleep_q stable_ext_q
  stable_browser_q

subsection \<open>create_temp_email\<close>

lemma create_temp_email_cases:
  "create_temp_email (Returned (Some email)) =
     Some (Returned (Some email), [Log INFO MailRequest, Http MailGenerate, Log INFO MailAddress])"
  "create_temp_email (Returned None) =
     Some (Returned None, [Log INFO MailRequest, Http MailGenerate])"
  "create_temp_email (Raised e) =
     Some (if is_Exception e then Returned None else Raised e,
       [Log INFO MailRequest, Http MailGenerate] @
       (if is_Exception e then [Log INFO MailFailed] else []))"
  by (simp_all add: create_temp_email_def act_defs start_def)

lemma create_temp_email_quiet:
  "create_temp_email g = Some (r, evs) \<Longrightarrow> list_all quiet evs"
proof (cases g)
  case (Returned x)
  assume "create_temp_email g = Some (r, evs)"
  with Returned show ?thesis
    by (cases x) (auto simp: create_temp_email_cases quiet_def)
next
  case (Raised e)
  assume "create_temp_email g = Some (r, evs)"
  with Raised show ?thesis
    by (auto simp: create_temp_email_cases quiet_def split: if_splits)
qed


subsection \<open>force_inject_turnstile\<close>

lemma frame_loop_stable:
  assumes "appends quiet I"
  shows "stable I (frame_loop w k js)"
proof (induction js)
  case Nil
  show ?case by (simp add: stable_intros)
next
  case (Cons j js)
  note a = assms
  show ?case
    by (simp del: upt_Suc)
      (intro quiet_intros[OF a] stable_intros Cons.IH; simp add: quiet_def)
qed

lemma frame_loop_total: "total (frame_loop w k js)"
  by (induction js) (auto intro!: total_intros)

lemma turnstile_quiet:
  assumes "force_inject_turnstile w k = Some (r, evs)"
  shows "list_all quiet evs"
proof (rule run_events[OF _ _ assms[unfolded force_inject_turnstile_def]])
  note a = appends_list_all[of quiet]
  show "stable (\<lambda>s. list_all quiet (trace s))
     (seq (ext (Browser (Script k None)) (script w k None)) (\<lambda>hit.
        seq (if hit then seq (log INFO CaptchaMain) (\<lambda>_. ret True) else unit_act ()) (\<lambda>_.
        seq (ext (Browser (FindFrames k)) (iframes w k)) (\<lambda>count.
        seq (frame_loop w k [0..<count]) (\<lambda>_.
        ret False)))))"
    by (intro quiet_intros[OF a] stable_intros frame_loop_stable[OF a]; simp add: quiet_def)
  show "list_all quiet (trace start)" by (simp add: start_def)
qed

lemma turnstile_total: "force_inject_turnstile w k \<noteq> None"
  unfolding force_inject_turnstile_def
  by (intro run_total total_intros frame_loop_total)

subsection \<open>The phases of an attempt\<close>

lemma challenge_loop_stable:
  assumes "appends quiet I"
  shows "stable I (challenge_loop w ks)"
proof (induction ks)
  case Nil
  show ?case by (simp add: stable_intros)
next
  case (Cons k ks)
  note a = assms
  show ?case
    by (simp del: upt_Suc)
      (intro quiet_intros[OF a] stable_intros stable_call_q[OF a] Cons.IH;
        (erule turnstile_quiet | simp add: quiet_def))
qed

lemma challenge_loop_total: "total (challenge_loop w ks)"
proof (induction ks)
  case Nil
  show ?case by (simp add: total_intros)
next
  case (Cons k ks)
  show ?case
    by (simp only: challenge_loop.simps) (intro total_intros turnstile_total Cons.IH)
qed

lemma fill_form_stable:
  assumes "appends quiet I"
  shows "stable I (fill_form w)"
  unfolding fill_form_def
  by (intro quiet_intros[OF assms] stable_intros stable_call_q[OF assms];
      (erule create_temp_email_quiet | simp add: quiet_def))


lemma open_signup_split:
  "open_signup w = seq (browser w Chrome) (\<lambda>_. seq set_driver (\<lambda>_. after_chrome w))"
  by (simp add: open_signup_def after_chrome_def)

lemma after_chrome_stable:
  assumes "appends quiet I"
  shows "stable I (after_chrome w)"
  unfolding after_chrome_def
  by (intro quiet_intros[OF assms] stable_intros; simp add: quiet_def)


lemma click_continue_stable:
  assumes "appends quiet I"
  shows "stable I (click_continue i btns)"
proof (induction btns arbitrary: i)
  case Nil
  show ?case by (simp add: stable_intros)
next
  case (Cons b btns)
  note a = assms
  show ?case
    by simp (intro quiet_intros[OF a] stable_intros Cons.IH; simp add: quiet_def)
qed

lemma click_continue_total: "total (click_continue i btns)"
  by (induction btns arbitrary: i) (auto intro!: total_intros)

lemma username_step_stable:
  assumes "appends quiet I"
  shows "stable I (username_step w)"
  unfolding username_step_def
  by (intro quiet_intros[OF assms] stable_intros click_continue_stable[OF assms];
      simp add: quiet_def)

lemma username_step_total: "total (username_step w)"
  unfolding username_step_def by (intro total_intros click_continue_total)

lemma scan_cookies_stable:
  assumes "appends quiet I"
  shows "stable I (scan_cookies cs k)"
proof (induction cs arbitrary: k)
  case Nil
  show ?case by (simp add: stable_intros)
next
  case (Cons c cs)
  note a = assms
  show ?case
    by simp (intro conjI impI quiet_intros[OF a] stable_intros Cons.IH; simp add: quiet_def)
qed

lemma scan_cookies_total: "total (scan_cookies cs k)"
  by (induction cs arbitrary: k) (auto intro!: total_intros)

lemma seq_weak_cong: "m = m' \<Longrightarrow> seq m f = seq m' f"
  by simp

lemma seq_apply:
  "seq m f s = (case m s of None \<Rightarrow> None
     | Some (Next x, s') \<Rightarrow> f x s'
     | Some (Return v, s') \<Rightarrow> Some (Return v, s')
     | Some (Raise e, s') \<Rightarrow> Some (Raise e, s'))"
  by (simp add: seq_def)

lemma try_except_apply:
  "try_except c m h s = (case m s of None \<Rightarrow> None
     | Some (Raise e, s') \<Rightarrow> if c e then h e s' else Some (Raise e, s')
     | Some (Next x, s') \<Rightarrow> Some (Next x, s')
     | Some (Return v, s') \<Rightarrow> Some (Return v, s'))"
  by (simp add: try_except_def)

lemma try_finally_apply:
  "try_finally m f s = (case m s of None \<Rightarrow> None
     | Some (fl, s') \<Rightarrow>
         (case f s' of None \<Rightarrow> None
          | Some (Next u, s'') \<Rightarrow> Some (fl, s'')
          | Some (Return v, s'') \<Rightarrow> Some (Return v, s'')
          | Some (Raise e, s'') \<Rightarrow> Some (Raise e, s'')))"
  by (simp add: try_finally_def)

lemma prim_apply:
  "unit_act x s = Some (Next x, s)"
  "ret v s = Some (Return v, s)"
  "raise e s = Some (Raise e, s)"
  "emit ev s = Some (Next (), s\<lparr>trace := trace s @ [ev]\<rparr>)"
  "log l m s = Some (Next (), s\<lparr>trace := trace s @ [Log l m]\<rparr>)"
  "sleep n s = Some (Next (), s\<lparr>trace := trace s @ [Sleep n]\<rparr>)"
  "ext ev (Returned x) s = Some (Next x, s\<lparr>trace := trace s @ [ev]\<rparr>)"
  "ext ev (Raised e) s = Some (Raise e, s\<lparr>trace := trace s @ [ev]\<rparr>)"
  "call (Some (Returned x, evs)) s = Some (Next x, s\<lparr>trace := trace s @ evs\<rparr>)"
  "call (Some (Raised e, evs)) s = Some (Raise e, s\<lparr>trace := trace s @ evs\<rparr>)"
  by (simp_all add: act_defs)

lemma state_apply:
  "set_driver s = Some (Next (), s\<lparr>driver := True\<rparr>)"
  "set_success s = Some (Next (), s\<lparr>success := True\<rparr>)"
  "get_driver s = Some (Next (driver s), s)"
  "get_success s = Some (Next (success s), s)"
  "count_success b = Some (Next (), b\<lparr>success_count := success_count b + 1\<rparr>)"
  "get_count b = Some (Next (success_count b), b)"
  by (simp_all add: set_driver_def set_success_def get_driver_def get_success_def
      count_success_def get_count_def)

lemmas eval_rules = seq_apply try_except_apply try_finally_apply prim_apply state_apply
  browser_def any_exc_def is_Exception_def is_ImportError_def

lemma text_facts:
  "sublist ''sign-up'' ''https://www.orchids.app/'' = False"
  "sublist ''client'' (lower ''__client'') = True"
  "sublist ''clerk'' ''clerk.orchids.app'' = True"
  "sublist ''clerk'' ''www.orchids.app'' = False"
  "re_search ascii_digit ''Your code is 482913'' = Some (13, ''482913'')"
  by code_simp+

lemma scenario_mail:
  "create_temp_email (Returned (Some ''a@b.test'')) =
     Some (Returned (Some ''a@b.test''),
       [Log INFO MailRequest, Http MailGenerate, Log INFO MailAddress])"
  by (simp add: create_temp_email_def run_def start_def eval_rules cong: seq_weak_cong)

lemma calm_turnstile:
  assumes "driver_call w = (\<lambda>c. Returned ())" "script w = (\<lambda>k frame. Returned False)"
    "iframes w = (\<lambda>k. Returned 1)"
  shows "force_inject_turnstile w k =
     Some (Returned False,
       [Browser (Script k None), Browser (FindFrames k), Browser (SwitchFrame k 0),
        Browser (Script k (Some 0)), Browser (DefaultContent k 0)])"
  by (simp add: force_inject_turnstile_def run_def start_def eval_rules assms
      cong: seq_weak_cong)

lemma scenario_code:
  "wait_for_code (inbox scenario) ''a@b.test'' =
     Some (Returned (Some ''482913''),
       [Log INFO MailListen, Http (MailList ''a@b.test''), Sleep 3,
        Http (MailList ''a@b.test''), Log INFO MailReceived, Log INFO CodeFound])"
  by (simp add: wait_for_code_def wait_for_code_body_def run_def poll_start_def eval_rules
      poll_loop.simps poll_step_def poll_once_def add_processed_def note_searched_def
      get_processed_def text_facts scenario_def cong: seq_weak_cong)

lemma two_clients_fields:
  "driver_call two_clients = (\<lambda>c. Returned ())"
  "code_fields two_clients = (\<lambda>k. Returned (if k < 2 then 0 else 1))"
  "script two_clients = (\<lambda>k frame. Returned False)"
  "iframes two_clients = (\<lambda>k. Returned 1)"
  "generated two_clients = Returned (Some ''a@b.test'')"
  "inbox two_clients = inbox scenario"
  "current_url two_clients = Returned ''https://www.orchids.app/''"
  "cdp_cookies two_clients = Returned
     [\<lparr>c_name = ''__client'', c_domain = ''clerk.orchids.app'', c_value = ''tok_clerk''\<rparr>,
      \<lparr>c_name = ''__client'', c_domain = ''www.orchids.app'', c_value = ''tok_other''\<rparr>]"
  by (simp_all add: two_clients_def scenario_def)

lemmas attempt_defs = register_one_account_def run_def attempt_start_def
  attempt_body_def open_signup_def fill_form_def clear_challenge_def verify_email_def
  username_step_def extract_credential_def release_def truthy_def

section \<open>The frame of an attempt\<close>

lemma release_apply:
  "release w s = Some (Next (), s\<lparr>trace := trace s @ (if driver s then closing w else [])\<rparr>)"
  by (cases "driver_call w ServiceStop"; cases "driver_call w Quit")
    (simp_all add: release_def closing_def eval_rules cong: seq_weak_cong)

lemma finally_release:
  "try_finally m (release w) s =
     (case m s of None \<Rightarrow> None
      | Some (fl, s') \<Rightarrow>
          Some (fl, s'\<lparr>trace := trace s' @ (if driver s' then closing w else [])\<rparr>))"
  by (simp add: try_finally_apply release_apply split: option.splits)

lemma attempt_tail:
  "seq (try_finally (guarded w url) (release w)) (\<lambda>_. seq get_success ret) s =
     (case guarded w url s of None \<Rightarrow> None
      | Some (fl, s') \<Rightarrow>
          Some (case fl of Next u \<Rightarrow> Return (success s') | Return v \<Rightarrow> Return v
                  | Raise e \<Rightarrow> Raise e,
            s'\<lparr>trace := trace s' @ (if driver s' then closing w else [])\<rparr>))"
proof (cases "guarded w url s")
  case None
  then show ?thesis by (simp add: seq_apply finally_release)
next
  case (Some p)
  obtain fl s' where p: "p = (fl, s')" by (cases p)
  show ?thesis
    by (cases fl) (simp_all add: Some p seq_apply finally_release prim_apply state_apply)
qed

lemma attempt_unfold:
  "register_one_account i t url h w =
     (case driver_call w Import of
        Raised e \<Rightarrow>
          if is_ImportError e
          then Some (Returned False,
            [Banner i t, Browser Import, Log ERR MissingDependency, Log ERR InstallHint])
          else Some (Raised e, [Banner i t, Browser Import])
      | Returned u \<Rightarrow>
          (case driver_call w (ChromeOptions h) of
             Raised e \<Rightarrow> Some (Raised e, [Banner i t, Browser Import, Browser (ChromeOptions h)])
           | Returned u' \<Rightarrow>
               (case guarded w url (entered i t h) of
                  None \<Rightarrow> None
                | Some (fl, s') \<Rightarrow>
                    Some (outcome_of fl s',
                      trace s' @ (if driver s' then closing w else [])))))"
proof -
  have fold: "try_except is_Exception (attempt_body w url) (\<lambda>e. log ERR AttemptError) =
      guarded w url"
    by (simp add: guarded_def)
  show ?thesis
  proof (cases "driver_call w Import")
    case (Raised e)
    then show ?thesis
      by (simp add: register_one_account_def run_def attempt_start_def seq_apply
          try_except_apply prim_apply browser_def is_ImportError_def cong: seq_weak_cong)
  next
    case imp: (Returned u)
    show ?thesis
    proof (cases "driver_call w (ChromeOptions h)")
      case (Raised e)
      with imp show ?thesis
        by (simp add: register_one_account_def run_def attempt_start_def seq_apply
            try_except_apply prim_apply browser_def cong: seq_weak_cong)
    next
      case (Returned u')
      have "register_one_account i t url h w =
          run (seq (try_finally (guarded w url) (release w)) (\<lambda>_. seq get_success ret))
            (entered i t h) trace"
        unfolding register_one_account_def fold
        by (simp add: imp Returned run_def attempt_start_def entered_def seq_apply
            try_except_apply prim_apply browser_def cong: seq_weak_cong)
      also have "\<dots> = (case guarded w url (entered i t h) of
                  None \<Rightarrow> None
                | Some (fl, s') \<Rightarrow>
                    Some (outcome_of fl s',
                      trace s' @ (if driver s' then closing w else [])))"
        by (simp add: run_def attempt_tail outcome_of_def split: option.splits flow.splits)
      finally show ?thesis by (simp add: imp Returned)
    qed
  qed
qed

lemma guarded_apply:
  "guarded w url s =
     (case attempt_body w url s of None \<Rightarrow> None
      | Some (Raise e, s') \<Rightarrow>
          if is_Exception e
          then Some (Next (), s'\<lparr>trace := trace s' @ [Log ERR AttemptError]\<rparr>)
          else Some (Raise e, s')
      | Some (Next x, s') \<Rightarrow> Some (Next x, s')
      | Some (Return v, s') \<Rightarrow> Some (Return v, s'))"
  by (simp add: guarded_def try_except_apply prim_apply
      split: option.splits prod.splits flow.splits)

subsection \<open>Early returns of the phases\<close>

lemma returns_state [returns_intros]:
  "returns P set_driver" "returns P set_success" "returns P get_driver" "returns P get_success"
  by (simp_all add: returns_def set_driver_def set_success_def get_driver_def get_success_def)

lemma open_signup_returns: "returns P (open_signup w)"
  unfolding open_signup_def by (intro returns_intros)

lemma fill_form_returns: "returns (\<lambda>v. \<not> v) (fill_form w)"
  unfolding fill_form_def by (intro returns_intros) simp

lemma challenge_loop_returns: "returns P (challenge_loop w ks)"
proof (induction ks)
  case Nil
  show ?case by (simp add: returns_intros)
next
  case (Cons k ks)
  show ?case by (simp only: challenge_loop.simps) (intro returns_intros Cons.IH)
qed

lemma clear_challenge_returns: "returns (\<lambda>v. \<not> v) (clear_challenge w)"
  unfolding clear_challenge_def by (intro returns_intros challenge_loop_returns) simp

lemma click_continue_returns: "returns P (click_continue i btns)"
proof (induction btns arbitrary: i)
  case Nil
  show ?case by (simp add: returns_intros)
next
  case (Cons b btns)
  show ?case by (simp only: click_continue.simps) (intro returns_intros Cons.IH)
qed

lemma username_step_returns: "returns P (username_step w)"
  unfolding username_step_def by (intro returns_intros click_continue_returns)

lemma scan_cookies_returns: "returns P (scan_cookies cs k)"
proof (induction cs arbitrary: k)
  case Nil
  show ?case by (simp add: returns_intros)
next
  case (Cons c cs)
  show ?case by (simp only: scan_cookies.simps) (intro returns_intros Cons.IH)
qed

lemma extract_credential_returns: "returns P (extract_credential w url)"
  unfolding extract_credential_def by (intro returns_intros scan_cookies_returns)

lemma verify_email_returns: "returns P (verify_email w email url)"
  unfolding verify_email_def
  by (intro returns_intros username_step_returns extract_credential_returns)

subsection \<open>Invariants and totality of the phases\<close>

lemma stable_state:
  "(\<And>s. I s \<Longrightarrow> I (s\<lparr>driver := True\<rparr>)) \<Longrightarrow> stable I set_driver"
  "(\<And>s. I s \<Longrightarrow> I (s\<lparr>success := True\<rparr>)) \<Longrightarrow> stable I set_success"
  "stable I get_driver" "stable I get_success"
  by (auto intro!: stableI simp: set_driver_def set_success_def get_driver_def get_success_def)

lemma total_state [total_intros]:
  "total set_driver" "total set_success" "total get_driver" "total get_success"
  by (simp_all add: total_def set_driver_def set_success_def get_driver_def get_success_def)

lemma open_signup_stable:
  assumes "appends quiet I" "\<And>s. I s \<Longrightarrow> I (s\<lparr>trace := trace s @ [Browser Chrome]\<rparr>)"
    "\<And>s. I s \<Longrightarrow> I (s\<lparr>driver := True\<rparr>)"
  shows "stable I (open_signup w)"
  unfolding open_signup_split browser_def
  by (intro stable_intros stable_ext stable_state after_chrome_stable assms)


lemma clear_challenge_stable:
  assumes "appends quiet I" "\<And>s. I s \<Longrightarrow> I (s\<lparr>trace := trace s @ [Log INFO EnterVerify]\<rparr>)"
  shows "stable I (clear_challenge w)"
  unfolding clear_challenge_def log_def
  by (intro stable_intros stable_emit challenge_loop_stable assms(1);
      (erule assms(2) | erule appendsD[OF assms(1)]; simp add: quiet_def))

lemma clear_challenge_total: "total (clear_challenge w)"
  unfolding clear_challenge_def by (intro total_intros challenge_loop_total)

subsection \<open>Events between the opening and the closing of the browser\<close>

lemma quiet_inner: "quiet e \<Longrightarrow> inner e"
  by (auto simp: quiet_def inner_def)

lemma appends_inner_quiet: "appends inner I \<Longrightarrow> appends quiet I"
  unfolding appends_def by (blast intro: quiet_inner)

lemma upload_inner:
  assumes "upload_to_server p key url = Some (r, evs)"
  shows "list_all inner evs"
proof (cases "url = []")
  case True
  with assms show ?thesis by (auto simp: upload_empty inner_def)
next
  case False
  show ?thesis
  proof (cases p)
    case (Returned st)
    with assms False show ?thesis by (auto simp: upload_status inner_def)
  next
    case (Raised e)
    with assms False show ?thesis by (auto simp: upload_raised inner_def split: if_splits)
  qed
qed

lemma upload_total: "upload_to_server p key url \<noteq> None"
proof (cases "url = []")
  case True
  then show ?thesis by (simp add: upload_empty)
next
  case False
  then show ?thesis by (cases p) (simp_all add: upload_status upload_raised)
qed

lemma wait_for_code_quiet:
  assumes "wait_for_code box email = Some (r, evs)"
  shows "list_all quiet evs"
  using wait_for_code_events[OF assms]
  by (auto simp: list_all_iff mail_events_def quiet_def)

lemma extract_credential_stable:
  assumes "appends inner I" "\<And>s. I s \<Longrightarrow> I (s\<lparr>success := True\<rparr>)"
  shows "stable I (extract_credential w url)"
  unfolding extract_credential_def
  by (intro quiet_intros[OF assms(1)] stable_intros stable_call_q[OF assms(1)] stable_state
      scan_cookies_stable[OF appends_inner_quiet[OF assms(1)]];
      (erule upload_inner | erule assms(2) | simp add: inner_def))

lemma verify_email_stable:
  assumes "appends inner I" "\<And>s. I s \<Longrightarrow> I (s\<lparr>success := True\<rparr>)"
  shows "stable I (verify_email w email url)"
  unfolding verify_email_def
  by (intro quiet_intros[OF assms(1)] stable_intros stable_call_q[OF assms(1)]
      username_step_stable[OF appends_inner_quiet[OF assms(1)]]
      extract_credential_stable[OF assms];
      (drule wait_for_code_quiet, simp add: list_all_iff quiet_inner | simp add: inner_def))

lemma after_chrome_phases_stable:
  assumes "appends inner I" "\<And>s. I s \<Longrightarrow> I (s\<lparr>success := True\<rparr>)"
  shows "stable I (seq (after_chrome w) (\<lambda>_. seq (fill_form w) (\<lambda>email.
     seq (clear_challenge w) (\<lambda>_. verify_email w email url))))"
proof -
  note q = appends_inner_quiet[OF assms(1)]
  have v: "\<And>s. I s \<Longrightarrow> I (s\<lparr>trace := trace s @ [Log INFO EnterVerify]\<rparr>)"
    by (rule appendsD[OF assms(1)]) (simp_all add: inner_def)
  show ?thesis
    by (intro stable_intros after_chrome_stable[OF q] fill_form_stable[OF q]
        clear_challenge_stable[OF q v] verify_email_stable[OF assms])
qed

lemma attempt_body_chrome:
  "attempt_body w url s =
     (case driver_call w Chrome of
        Raised e \<Rightarrow> Some (Raise e, s\<lparr>trace := trace s @ [Browser Chrome]\<rparr>)
      | Returned u \<Rightarrow>
          seq (after_chrome w) (\<lambda>_. seq (fill_form w) (\<lambda>email.
            seq (clear_challenge w) (\<lambda>_. verify_email w email url)))
            (s\<lparr>trace := trace s @ [Browser Chrome], driver := True\<rparr>))"
  by (cases "driver_call w Chrome")
    (simp_all add: attempt_body_def open_signup_split seq_apply prim_apply state_apply
      browser_def cong: seq_weak_cong)

section \<open>The credential and its publication\<close>

lemma stdout_lines_append [simp]:
  "stdout_lines (xs @ ys) = stdout_lines xs @ stdout_lines ys"
  by (simp add: stdout_lines_def)

lemma stdout_lines_simps [simp]:
  "stdout_lines [] = []"
  "stdout_lines (Stdout l # evs) = l # stdout_lines evs"
  "stdout_lines (Log lv m # evs) = stdout_lines evs"
  "stdout_lines (Browser c # evs) = stdout_lines evs"
  "stdout_lines (Http rq # evs) = stdout_lines evs"
  "stdout_lines (Sleep n # evs) = stdout_lines evs"
  "stdout_lines (Banner i t # evs) = stdout_lines evs"
  "stdout_lines (Summary k t # evs) = stdout_lines evs"
  by (simp_all add: stdout_lines_def)

lemma quiet_silent:
  "list_all quiet evs \<Longrightarrow> stdout_lines evs = [] \<and> Log INFO KeyExtracted \<notin> set evs"
proof (induction evs)
  case Nil
  show ?case by simp
next
  case (Cons e evs)
  then show ?case by (cases e) (auto simp: quiet_def)
qed

lemma unpublished_appends: "appends quiet unpublished"
  unfolding appends_def unpublished_def
proof (intro allI impI)
  fix s :: attempt and e
  assume a: "stdout_lines (trace s) = [] \<and> Log INFO KeyExtracted \<notin> set (trace s) \<and> \<not> success s"
    and q: "quiet e"
  from q have "list_all quiet [e]" by simp
  from quiet_silent[OF this] a
  show "stdout_lines (trace (s\<lparr>trace := trace s @ [e]\<rparr>)) = [] \<and>
    Log INFO KeyExtracted \<notin> set (trace (s\<lparr>trace := trace s @ [e]\<rparr>)) \<and>
    \<not> success (s\<lparr>trace := trace s @ [e]\<rparr>)"
    by simp
qed

lemma scan_cookies_apply:
  "scan_cookies cs k s = Some (Next (pick_key cs k), s\<lparr>trace := trace s @ scan_events cs\<rparr>)"
proof (induction cs arbitrary: k s)
  case Nil
  show ?case by (simp add: pick_key_def scan_events_def unit_act_def)
next
  case (Cons c cs)
  have p: "pick_key (c # cs) k =
      pick_key cs (if c_name c = ''__client'' then Some (c_value c) else k)"
    by (simp add: pick_key_def)
  have e: "scan_events (c # cs) =
     (if sublist ''client'' (lower (c_name c)) then [Log INFO RelatedCookie] else []) @
     (if c_name c = ''__client'' \<and> sublist ''clerk'' (c_domain c) then [Log INFO ClerkHit]
      else []) @ scan_events cs"
    by (simp add: scan_events_def)
  show ?case
    unfolding p e
    by (simp add: seq_apply prim_apply Cons.IH cong: seq_weak_cong)
qed

lemma scan_events_quiet: "list_all quiet (scan_events cs)"
  by (induction cs) (simp_all add: scan_events_def quiet_def)

lemma read_events_quiet: "list_all quiet (read_events w)"
  by (simp add: read_events_def quiet_def split: outcome.splits)

lemma read_cookies_apply:
  "try_except any_exc (ext (Browser CdpGetAllCookies) (cdp_cookies w))
       (\<lambda>e. ext (Browser GetCookies) (page_cookies w)) s =
     Some (case cookies_read w of Returned cs \<Rightarrow> Next cs | Raised e \<Rightarrow> Raise e,
       s\<lparr>trace := trace s @ read_events w\<rparr>)"
  by (cases "cdp_cookies w"; cases "page_cookies w")
    (simp_all add: cookies_read_def read_events_def try_except_apply prim_apply any_exc_def)

lemma upload_cases:
  "\<exists>r evs. upload_to_server p key url = Some (r, evs) \<and>
     stdout_lines evs = [''CLIENT_KEY:'' @ key] \<and> Log INFO KeyExtracted \<notin> set evs \<and>
     (\<forall>e. r = Raised e \<longrightarrow> p = Raised e \<and> \<not> is_Exception e)"
proof (cases "url = []")
  case True
  then show ?thesis by (simp add: upload_empty)
next
  case False
  then show ?thesis by (cases p) (simp_all add: upload_status upload_raised)
qed

lemma leadsI: "(\<And>s fl s'. I s \<Longrightarrow> m s = Some (fl, s') \<Longrightarrow> Q fl s') \<Longrightarrow> leads I m Q"
  unfolding leads_def by blast

lemma leadsD: "leads I m Q \<Longrightarrow> I s \<Longrightarrow> m s = Some (fl, s') \<Longrightarrow> Q fl s'"
  unfolding leads_def by blast

lemma unpublished_published:
  "unpublished s \<Longrightarrow> (\<And>v. fl = Return v \<Longrightarrow> \<not> v) \<Longrightarrow> published w fl s"
  by (cases fl) (auto simp: published_def unpublished_def)

lemma extract_credential_leads:
  "leads unpublished (extract_credential w url) (published w)"
proof (rule leadsI)
  fix s :: attempt and fl :: "(bool, unit) flow" and s'
  assume K: "unpublished s" and r: "extract_credential w url s = Some (fl, s')"
  from K have K1: "stdout_lines (trace s) = []" "Log INFO KeyExtracted \<notin> set (trace s)"
    "\<not> success s" by (simp_all add: unpublished_def)
  note q1 = quiet_silent[OF read_events_quiet, of w]
  show "published w fl s'"
  proof (cases "cookies_read w")
    case (Raised e)
    with r have "fl = Raise e" "s' = s\<lparr>trace := trace s @ Log INFO ReadingCookies # read_events w\<rparr>"
      by (simp_all add: extract_credential_def seq_apply prim_apply read_cookies_apply
          cong: seq_weak_cong)
    with K1 q1 show ?thesis by (simp add: published_def unpublished_def)
  next
    case (Returned cs)
    then have sel: "selected w = pick_key cs None" by (simp add: selected_def)
    note q2 = quiet_silent[OF scan_events_quiet, of cs]
    show ?thesis
    proof (cases "truthy (pick_key cs None)")
      case False
      with r Returned have "fl = Next ()"
        "s' = s\<lparr>trace := trace s @ Log INFO ReadingCookies # read_events w @
           Log INFO CookieCount # scan_events cs @ [Log ERR KeyMissing]\<rparr>"
        by (simp_all add: extract_credential_def seq_apply prim_apply read_cookies_apply
            scan_cookies_apply cong: seq_weak_cong)
      with K1 q1 q2 show ?thesis by (simp add: published_def unpublished_def)
    next
      case True
      from upload_cases[of "post w" "the (pick_key cs None)" url] obtain res evs where
        u: "upload_to_server (post w) (the (pick_key cs None)) url = Some (res, evs)"
        and l: "stdout_lines evs = [''CLIENT_KEY:'' @ the (pick_key cs None)]"
        and n: "Log INFO KeyExtracted \<notin> set evs"
        and e: "\<forall>e. res = Raised e \<longrightarrow> post w = Raised e \<and> \<not> is_Exception e"
        by blast
      show ?thesis
      proof (cases res)
        case (Returned b)
        with r \<open>cookies_read w = Returned cs\<close> True u have "fl = Next ()"
          "s' = s\<lparr>trace := trace s @ Log INFO ReadingCookies # read_events w @
             Log INFO CookieCount # scan_events cs @ Log INFO KeyExtracted # evs,
             success := True\<rparr>"
          by (simp_all add: extract_credential_def seq_apply prim_apply state_apply
              read_cookies_apply scan_cookies_apply cong: seq_weak_cong)
        with K1 q1 q2 l True sel show ?thesis by (simp add: published_def)
      next
        case (Raised x)
        with r \<open>cookies_read w = Returned cs\<close> True u have "fl = Raise x"
          "s' = s\<lparr>trace := trace s @ Log INFO ReadingCookies # read_events w @
             Log INFO CookieCount # scan_events cs @ Log INFO KeyExtracted # evs\<rparr>"
          by (simp_all add: extract_credential_def seq_apply prim_apply state_apply
              read_cookies_apply scan_cookies_apply cong: seq_weak_cong)
        with K1 q1 q2 l True sel e Raised show ?thesis by (simp add: published_def)
      qed
    qed
  qed
qed

lemma published_stable:
  assumes "stable unpublished m" "returns (\<lambda>v. \<not> v) m"
  shows "leads unpublished m (published w)"
proof (rule leadsI)
  fix s :: attempt and fl :: "(bool, unit) flow" and s'
  assume K: "unpublished s" and r: "m s = Some (fl, s')"
  from stableD[OF assms(1) K r] have "unpublished s'" .
  moreover have "\<not> v" if "fl = Return v" for v
    using returnsD[OF assms(2) r[unfolded that]] .
  ultimately show "published w fl s'" by (rule unpublished_published)
qed

lemma published_seq:
  assumes st: "stable unpublished m" and rt: "returns (\<lambda>v. \<not> v) m"
    and f: "\<And>x. leads unpublished (f x) (published w)"
  shows "leads unpublished (seq m f) (published w)"
proof (rule leadsI)
  fix s :: attempt and fl :: "(bool, unit) flow" and s'
  assume K: "unpublished s" and r: "seq m f s = Some (fl, s')"
  from r show "published w fl s'"
  proof (cases rule: seq_cases)
    case (Next x s1)
    from stableD[OF st K Next(1)] have "unpublished s1" .
    from leadsD[OF f this Next(2)] show ?thesis .
  next
    case (Return v)
    from stableD[OF st K Return(1)] have "unpublished s'" .
    moreover from returnsD[OF rt Return(1)] have "\<not> v" .
    ultimately show ?thesis using Return(2)
      by (auto simp: published_def unpublished_def)
  next
    case (Raise e)
    from stableD[OF st K Raise(1)] have "unpublished s'" .
    then show ?thesis using Raise(2)
      by (auto simp: published_def unpublished_def)
  qed
qed

lemma published_if:
  "(b \<Longrightarrow> leads I m Q) \<Longrightarrow> (\<not> b \<Longrightarrow> leads I n Q) \<Longrightarrow> leads I (if b then m else n) Q"
  by simp

lemma verify_email_leads:
  "leads unpublished (verify_email w email url) (published w)"
proof -
  note a = unpublished_appends
  have tail: "leads unpublished
     (seq (log INFO TypingCode) (\<lambda>_.
       seq (browser w TypeCode) (\<lambda>_.
       seq (sleep 5) (\<lambda>_.
       seq (username_step w) (\<lambda>_.
       extract_credential w url))))) (published w)"
    by (intro published_seq extract_credential_leads quiet_intros[OF a]
        username_step_stable[OF a] returns_intros username_step_returns;
        simp add: quiet_def)
  have timeout: "leads unpublished (log INFO CodeTimeout) (published w)"
    by (intro published_stable quiet_intros[OF a] returns_intros; simp add: quiet_def)
  show ?thesis
    unfolding verify_email_def
    by (intro published_seq published_if tail timeout quiet_intros[OF a]
        stable_call_q[OF a] returns_intros;
        (erule wait_for_code_quiet | simp add: quiet_def))
qed

lemma attempt_body_leads:
  "leads unpublished (attempt_body w url) (published w)"
proof -
  note a = unpublished_appends
  have o: "stable unpublished (open_signup w)"
    by (rule open_signup_stable[OF a]) (simp_all add: unpublished_def)
  have c: "stable unpublished (clear_challenge w)"
    by (rule clear_challenge_stable[OF a]) (simp add: unpublished_def)
  show ?thesis
    unfolding attempt_body_def
    by (intro published_seq verify_email_leads o c fill_form_stable[OF a]
        open_signup_returns fill_form_returns clear_challenge_returns)
qed

lemma closing_silent:
  "stdout_lines (closing w) = [] \<and> Log INFO KeyExtracted \<notin> set (closing w)"
  by (simp add: closing_def split: outcome.splits)

lemma attempt_published:
  assumes "register_one_account i t url h w = Some (r, evs)"
  shows "if Log INFO KeyExtracted \<in> set evs
     then stdout_lines evs = [''CLIENT_KEY:'' @ the (selected w)] \<and> truthy (selected w) \<and>
       (r = Returned True \<or> (\<exists>e. r = Raised e \<and> post w = Raised e \<and> \<not> is_Exception e))
     else stdout_lines evs = [] \<and> r \<noteq> Returned True"
proof (cases "driver_call w Import")
  case (Raised e)
  with assms show ?thesis by (auto simp: attempt_unfold split: if_splits)
next
  case imp: (Returned u)
  show ?thesis
  proof (cases "driver_call w (ChromeOptions h)")
    case (Raised e)
    with assms imp show ?thesis by (auto simp: attempt_unfold)
  next
    case (Returned u')
    from assms imp Returned obtain fl s' where
      g: "guarded w url (entered i t h) = Some (fl, s')"
      and evs: "evs = trace s' @ (if driver s' then closing w else [])"
      and r: "r = outcome_of fl s'"
      by (auto simp: attempt_unfold split: option.splits)
    from g obtain fl0 s0 where b: "attempt_body w url (entered i t h) = Some (fl0, s0)"
      by (auto simp: guarded_apply split: option.splits)
    have K: "unpublished (entered i t h)" by (simp add: unpublished_def entered_def)
    from leadsD[OF attempt_body_leads K b] have p0: "published w fl0 s0" .
    have p: "published w fl s'"
    proof (cases "\<exists>e. fl0 = Raise e \<and> is_Exception e")
      case True
      then obtain e where e: "fl0 = Raise e" "is_Exception e" by blast
      with g b have fs: "fl = Next ()" "s' = s0\<lparr>trace := trace s0 @ [Log ERR AttemptError]\<rparr>"
        by (simp_all add: guarded_apply)
      from p0 e have "unpublished s0"
        by (auto simp: published_def split: if_splits)
      then show ?thesis by (simp add: fs published_def unpublished_def)
    next
      case False
      with g b have "fl = fl0" "s' = s0"
        by (auto simp: guarded_apply split: flow.splits if_splits)
      with p0 show ?thesis by simp
    qed
    note c = closing_silent[of w]
    have s: "stdout_lines evs = stdout_lines (trace s')"
      "Log INFO KeyExtracted \<in> set evs \<longleftrightarrow> Log INFO KeyExtracted \<in> set (trace s')"
      using c by (auto simp: evs)
    show ?thesis
    proof (cases "Log INFO KeyExtracted \<in> set (trace s')")
      case True
      with p show ?thesis unfolding s
        by (cases fl) (auto simp: published_def r outcome_of_def)
    next
      case False
      with p show ?thesis unfolding s
        by (cases fl) (auto simp: published_def unpublished_def r outcome_of_def)
    qed
  qed
qed

section \<open>Credential selection\<close>

text \<open>
  C2. The cookie loop of \<open>register_one_account\<close> assigns the value of every cookie named
  \<open>__client\<close> to the selection, and its test for \<open>clerk\<close> in the domain only writes a log line.
  With a cookie on \<open>clerk.orchids.app\<close> followed by one on \<open>www.orchids.app\<close>, both named
  \<open>__client\<close>, the loop ends with the value of the second, and the attempt reports that value
  on standard output; with the two in the other order it ends with the value of the first.
\<close>

theorem last_client_cookie_selected:
  "scan_cookies
     [\<lparr>c_name = ''__client'', c_domain = ''clerk.orchids.app'', c_value = ''tok_clerk''\<rparr>,
      \<lparr>c_name = ''__client'', c_domain = ''www.orchids.app'', c_value = ''tok_other''\<rparr>]
     None attempt_start =
     Some (Next (Some ''tok_other''),
       attempt_start\<lparr>trace :=
         [Log INFO RelatedCookie, Log INFO ClerkHit, Log INFO RelatedCookie]\<rparr>) \<and>
   scan_cookies
     [\<lparr>c_name = ''__client'', c_domain = ''www.orchids.app'', c_value = ''tok_other''\<rparr>,
      \<lparr>c_name = ''__client'', c_domain = ''clerk.orchids.app'', c_value = ''tok_clerk''\<rparr>]
     None attempt_start =
     Some (Next (Some ''tok_clerk''),
       attempt_start\<lparr>trace :=
         [Log INFO RelatedCookie, Log INFO RelatedCookie, Log INFO ClerkHit]\<rparr>) \<and>
   map_option (\<lambda>r. (fst r, stdout_lines (snd r)))
     (register_one_account 1 1 [] False two_clients) =
     Some (Returned True, [''CLIENT_KEY:tok_other''])"
proof -
  have "register_one_account 1 1 [] False two_clients =
     Some (Returned True,
       [Banner 1 1, Browser Import, Browser (ChromeOptions False),
        Browser Chrome, Log INFO Visiting, Browser SetPageLoadTimeout,
        Browser GetTarget, Sleep 3, Browser WaitSignIn, Browser ClickSignIn,
        Browser WaitWelcome, Browser WaitSignUp, Browser ClickSignUp,
        Browser WaitEmailField, Log INFO MailRequest, Http MailGenerate,
        Log INFO MailAddress, Browser TypeEmail, Browser TypePassword,
        Log INFO ClickingContinue, Browser ClickContinue,
        Log INFO EnterVerify, Browser (FindCodeField 0),
        Browser (Script 0 None), Browser (FindFrames 0),
        Browser (SwitchFrame 0 0), Browser (Script 0 (Some 0)),
        Browser (DefaultContent 0 0), Sleep 2,
        Browser (FindCodeField 1), Browser (Script 1 None),
        Browser (FindFrames 1), Browser (SwitchFrame 1 0),
        Browser (Script 1 (Some 0)),
        Browser (DefaultContent 1 0), Sleep 2,
        Browser (FindCodeField 2), Log INFO CodeFieldAppeared,
        Log INFO WaitingCode, Browser WaitCodeField, Log INFO MailListen,
        Http (MailList ''a@b.test''), Sleep 3, Http (MailList ''a@b.test''),
        Log INFO MailReceived, Log INFO CodeFound, Log INFO TypingCode,
        Browser TypeCode, Sleep 5, Browser CurrentUrl,
        Log INFO ReadingCookies, Browser CdpGetAllCookies,
        Log INFO CookieCount, Log INFO RelatedCookie, Log INFO ClerkHit,
        Log INFO RelatedCookie, Log INFO KeyExtracted,
        Stdout ''CLIENT_KEY:tok_other'', Browser ServiceStop,
        Browser Quit])"
    by (simp add: attempt_defs eval_rules two_clients_fields scenario_mail
        calm_turnstile[of two_clients] scenario_code upload_empty text_facts upt_rec
        numeral_2_eq_2 cong: seq_weak_cong)
  moreover have "scan_cookies
     [\<lparr>c_name = ''__client'', c_domain = ''clerk.orchids.app'', c_value = ''tok_clerk''\<rparr>,
      \<lparr>c_name = ''__client'', c_domain = ''www.orchids.app'', c_value = ''tok_other''\<rparr>]
     None attempt_start =
     Some (Next (Some ''tok_other''),
       attempt_start\<lparr>trace :=
         [Log INFO RelatedCookie, Log INFO ClerkHit, Log INFO RelatedCookie]\<rparr>)"
    by (simp add: eval_rules text_facts attempt_start_def cong: seq_weak_cong)
  moreover have "scan_cookies
     [\<lparr>c_name = ''__client'', c_domain = ''www.orchids.app'', c_value = ''tok_other''\<rparr>,
      \<lparr>c_name = ''__client'', c_domain = ''clerk.orchids.app'', c_value = ''tok_clerk''\<rparr>]
     None attempt_start =
     Some (Next (Some ''tok_clerk''),
       attempt_start\<lparr>trace :=
         [Log INFO RelatedCookie, Log INFO RelatedCookie, Log INFO ClerkHit]\<rparr>)"
    by (simp add: eval_rules text_facts attempt_start_def cong: seq_weak_cong)
  ultimately show ?thesis
    by (simp add: stdout_lines_def)
qed

section \<open>A fetch that raises\<close>

text \<open>
  C4. In \<open>wait_for_code\<close> the three-second sleep is the last statement of the \<open>try\<close> block,
  so a fetch that raises skips it: the handler passes and the next fetch follows at once.
  With a mailbox whose first fetch raises and whose second finds no message, the two requests
  are adjacent in the trace, and only the second is followed by the sleep; the function returns
  \<open>None\<close> when the budget is over.
\<close>

theorem fetch_error_retried_without_sleep:
  "wait_for_code flaky_inbox ''a@b.test'' =
     Some (Returned None,
       [Log INFO MailListen, Http (MailList ''a@b.test''), Http (MailList ''a@b.test''),
        Sleep 3])"
  by (simp add: wait_for_code_def wait_for_code_body_def run_def eval_rules poll_loop.simps
      poll_step_raises poll_step_empty poll_start_def flaky_inbox_def cong: seq_weak_cong)

section \<open>A missing browser driver\<close>

text \<open>
  C7, as the claim states it. With the import of the browser driver raising \<open>ImportError\<close> in
  both attempts of a batch of two, the first attempt returns \<open>False\<close> without raising, and
  \<open>main\<close> goes on to the second attempt (its banner is in the trace), prints the summary and
  returns exit status 1.
\<close>

theorem import_error_is_not_fatal:
  "register_one_account 1 2 [] False no_driver =
     Some (Returned False,
       [Banner 1 2, Browser Import, Log ERR MissingDependency, Log ERR InstallHint]) \<and>
   main no_driver_batch =
     Some (Returned 1,
       [Log INFO Start, Log INFO ConfigCount, Log INFO ConfigServer, Log INFO ConfigHeadless,
        Banner 1 2, Browser Import, Log ERR MissingDependency, Log ERR InstallHint,
        Log INFO Resting, Sleep 8,
        Banner 2 2, Browser Import, Log ERR MissingDependency, Log ERR InstallHint,
        Summary 0 2])"
proof -
  have a: "register_one_account i t [] False no_driver =
     Some (Returned False,
       [Banner i t, Browser Import, Log ERR MissingDependency, Log ERR InstallHint])" for i t
    by (simp add: register_one_account_def run_def eval_rules no_driver_def attempt_start_def
        cong: seq_weak_cong)
  show ?thesis
    by (simp add: a main_def run_def eval_rules batch_start_def no_driver_batch_def upt_rec
        cong: seq_weak_cong)
qed

text \<open>
  C7, amended. When the import of the browser driver raises \<open>ImportError\<close>, the attempt catches
  it at its own boundary: it logs the missing dependency and the install hint and returns
  \<open>False\<close> without raising and without opening a browser. The batch loop counts no success
  for it, rests if another attempt follows, and continues with the remaining attempts.
\<close>

theorem missing_driver_fails_one_attempt:
  assumes "driver_call (worlds a i) Import = Raised ImportError"
  shows "register_one_account n t url h (worlds a i) =
       Some (Returned False,
         [Banner n t, Browser Import, Log ERR MissingDependency, Log ERR InstallHint]) \<and>
     batch_loop a (i # rest) s =
       batch_loop a rest (s\<lparr>trace := trace s @
         [Banner (int i + 1) (total_num a), Browser Import, Log ERR MissingDependency,
          Log ERR InstallHint] @
         (if int i < total_num a - 1 then [Log INFO Resting, Sleep (wait_time a i)]
          else [])\<rparr>)"
proof -
  have a: "register_one_account n t url h (worlds a i) =
       Some (Returned False,
         [Banner n t, Browser Import, Log ERR MissingDependency, Log ERR InstallHint])" for n t url h
    by (simp add: register_one_account_def run_def eval_rules assms attempt_start_def
        cong: seq_weak_cong)
  show ?thesis
    by (simp add: a eval_rules cong: seq_weak_cong)
qed

theorem missing_driver_fails_one_attempt_witness:
  "driver_call (worlds no_driver_batch 0) Import = Raised ImportError \<and>
   register_one_account 1 2 [] False (worlds no_driver_batch 0) =
     Some (Returned False,
       [Banner 1 2, Browser Import, Log ERR MissingDependency, Log ERR InstallHint]) \<and>
   batch_loop no_driver_batch [0, 1] batch_start =
     batch_loop no_driver_batch [1] (batch_start\<lparr>trace :=
       [Banner 1 2, Browser Import, Log ERR MissingDependency, Log ERR InstallHint,
        Log INFO Resting, Sleep 8]\<rparr>)"
proof -
  have a: "driver_call (worlds no_driver_batch 0) Import = Raised ImportError"
    by (simp add: no_driver_batch_def no_driver_def)
  note w = missing_driver_fails_one_attempt [OF a, of 1 2 "[]" False "[1]" batch_start]
  have st: "batch_start\<lparr>trace := trace batch_start @
         [Banner (int 0 + 1) (total_num no_driver_batch), Browser Import,
          Log ERR MissingDependency, Log ERR InstallHint] @
         (if int 0 < total_num no_driver_batch - 1
          then [Log INFO Resting, Sleep (wait_time no_driver_batch 0)] else [])\<rparr> =
       batch_start\<lparr>trace :=
         [Banner 1 2, Browser Import, Log ERR MissingDependency, Log ERR InstallHint,
          Log INFO Resting, Sleep 8]\<rparr>"
    by (simp add: no_driver_batch_def batch_start_def)
  from w have c1: "register_one_account 1 2 [] False (worlds no_driver_batch 0) =
     Some (Returned False,
       [Banner 1 2, Browser Import, Log ERR MissingDependency, Log ERR InstallHint])"
    by (rule conjunct1)
  from w have c2: "batch_loop no_driver_batch [0, 1] batch_start =
     batch_loop no_driver_batch [1] (batch_start\<lparr>trace := trace batch_start @
         [Banner (int 0 + 1) (total_num no_driver_batch), Browser Import,
          Log ERR MissingDependency, Log ERR InstallHint] @
         (if int 0 < total_num no_driver_batch - 1
          then [Log INFO Resting, Sleep (wait_time no_driver_batch 0)] else [])\<rparr>)"
    by (rule conjunct2)
  show ?thesis
    by (intro conjI a c1 c2[unfolded st])
qed

section \<open>Deduplication of polled messages\<close>

text \<open>
  C3. The list \<open>searched\<close> records, in order, the message ids for which the search of the
  code was entered. One poll cycle never removes an id from \<open>processed_ids\<close>, and it enters the
  search for at most one id, which was not in the set before the cycle and is in it after.
  Over any run of the polling loop, from any cycle and any state, the set only grows; and a
  whole call of \<open>wait_for_code\<close> ends with a list \<open>searched\<close> without repetition, all of
  whose ids are processed: the search is entered at most once for each id, also when the same
  id is the newest message in several cycles.
\<close>

theorem processed_ids_grow_and_search_once:
  "(poll_step box email n s = Some (fl, s') \<longrightarrow>
      processed_ids s \<subseteq> processed_ids s' \<and>
      (searched s' = searched s \<or>
       (\<exists>i. searched s' = searched s @ [i] \<and> i \<notin> processed_ids s \<and> i \<in> processed_ids s'))) \<and>
   (poll_loop box email n s = Some (fl, s') \<longrightarrow>
      processed_ids s \<subseteq> processed_ids s' \<and>
      (distinct (searched s) \<and> set (searched s) \<subseteq> processed_ids s \<longrightarrow>
       distinct (searched s') \<and> set (searched s') \<subseteq> processed_ids s')) \<and>
   (wait_for_code_body box email poll_start = Some (fl', s') \<longrightarrow>
      distinct (searched s') \<and> set (searched s') \<subseteq> processed_ids s')"
proof (intro conjI impI)
  assume a: "poll_step box email n s = Some (fl, s')"
  from poll_step_props(1)[OF a] show "processed_ids s \<subseteq> processed_ids s'" .
  from poll_step_props(5)[OF a]
  show "searched s' = searched s \<or>
       (\<exists>i. searched s' = searched s @ [i] \<and> i \<notin> processed_ids s \<and> i \<in> processed_ids s')" .
next
  assume a: "poll_loop box email n s = Some (fl, s')"
  from poll_loop_props[OF a] show "processed_ids s \<subseteq> processed_ids s'" by simp
next
  assume a: "poll_loop box email n s = Some (fl, s')"
    and d: "distinct (searched s) \<and> set (searched s) \<subseteq> processed_ids s"
  from poll_loop_props[OF a] d have "dedup s'" by (simp add: dedup_def)
  then show "distinct (searched s')" and "set (searched s') \<subseteq> processed_ids s'"
    by (simp_all add: dedup_def)
next
  assume a: "wait_for_code_body box email poll_start = Some (fl', s')"
  from wait_for_code_body_props(1)[OF a]
  show "distinct (searched s')" and "set (searched s') \<subseteq> processed_ids s'"
    by (simp_all add: dedup_def)
qed

lemma repeating_inbox_run:
  "wait_for_code_body repeating_inbox ''a@b.test'' poll_start =
     Some (Return None,
       \<lparr>trace = [Log INFO MailListen, Http (MailList ''a@b.test''), Log INFO MailReceived,
          Sleep 3, Http (MailList ''a@b.test''), Sleep 3],
        processed_ids = {7}, searched = [7]\<rparr>)"
proof -
  have "re_search ascii_digit ''Welcome'' = None"
    "re_search ascii_digit ''no code yet'' = None"
    by code_simp+
  then show ?thesis
    by (simp add: wait_for_code_body_def poll_start_def eval_rules poll_loop.simps poll_step_def
        poll_once_def add_processed_def note_searched_def get_processed_def
        repeating_inbox_def cong: seq_weak_cong)
qed

theorem processed_ids_grow_and_search_once_witness:
  "wait_for_code_body repeating_inbox ''a@b.test'' poll_start =
     Some (Return None,
       \<lparr>trace = [Log INFO MailListen, Http (MailList ''a@b.test''), Log INFO MailReceived,
          Sleep 3, Http (MailList ''a@b.test''), Sleep 3],
        processed_ids = {7}, searched = [7]\<rparr>) \<and>
   distinct (searched
       \<lparr>trace = [Log INFO MailListen, Http (MailList ''a@b.test''), Log INFO MailReceived,
          Sleep 3, Http (MailList ''a@b.test''), Sleep 3],
        processed_ids = {7::nat}, searched = [7]\<rparr>) \<and>
   set (searched
       \<lparr>trace = [Log INFO MailListen, Http (MailList ''a@b.test''), Log INFO MailReceived,
          Sleep 3, Http (MailList ''a@b.test''), Sleep 3],
        processed_ids = {7::nat}, searched = [7]\<rparr>) \<subseteq> {7}"
  using processed_ids_grow_and_search_once [where box = repeating_inbox
      and email = "''a@b.test''" and n = 0 and s = poll_start and fl = "Return None"
      and fl' = "Return None" and s' =
      "\<lparr>trace = [Log INFO MailListen, Http (MailList ''a@b.test''), Log INFO MailReceived,
          Sleep 3, Http (MailList ''a@b.test''), Sleep 3],
        processed_ids = {7}, searched = [7]\<rparr>"]
    repeating_inbox_run
  by simp

section \<open>Exit status of a batch\<close>

lemma batch_step:
  assumes "attempt_result a i = Some (Returned ok, evs)"
  shows "batch_loop a (i # rest) s =
     batch_loop a rest (s\<lparr>success_count := success_count s + (if ok then 1 else 0),
       trace := trace s @ evs @
         (if int i < total_num a - 1 then [Log INFO Resting, Sleep (wait_time a i)]
          else [])\<rparr>)"
  using assms by (cases s) (simp add: attempt_result_def eval_rules cong: seq_weak_cong)

lemma batch_loop_counts:
  assumes "\<forall>i\<in>set ks. returned a i"
  shows "\<exists>evs. batch_loop a ks s =
     Some (Next (), s\<lparr>trace := trace s @ evs,
       success_count := success_count s + length (filter (succeeded a) ks)\<rparr>)"
  using assms
proof (induction ks arbitrary: s)
  case Nil
  show ?case by (intro exI[of _ "[]"]) (simp add: unit_act_def)
next
  case (Cons i ks)
  from Cons.prems have "returned a i" by simp
  then obtain ok evs where r: "attempt_result a i = Some (Returned ok, evs)"
    by (auto simp: returned_def split: option.splits prod.splits outcome.splits)
  then have ok: "succeeded a i = ok" by (simp add: succeeded_def)
  define s1 where "s1 = s\<lparr>success_count := success_count s + (if ok then 1 else 0),
       trace := trace s @ evs @
         (if int i < total_num a - 1 then [Log INFO Resting, Sleep (wait_time a i)]
          else [])\<rparr>"
  from Cons.prems have "\<forall>i\<in>set ks. returned a i" by simp
  from Cons.IH[OF this, of s1] obtain evs' where
    ih: "batch_loop a ks s1 = Some (Next (), s1\<lparr>trace := trace s1 @ evs',
       success_count := success_count s1 + length (filter (succeeded a) ks)\<rparr>)" by blast
  have "batch_loop a (i # ks) s = batch_loop a ks s1"
    unfolding s1_def by (rule batch_step[OF r])
  with ih have "batch_loop a (i # ks) s = Some (Next (), s\<lparr>trace := trace s @ (evs @
         (if int i < total_num a - 1 then [Log INFO Resting, Sleep (wait_time a i)] else [])
         @ evs'),
       success_count := success_count s + length (filter (succeeded a) (i # ks))\<rparr>)"
    by (simp add: s1_def ok)
  then show ?case by blast
qed

text \<open>
  C5. When every attempt of the batch returns, \<open>main\<close> returns: its last output is the
  summary, which carries the number of attempts that returned \<open>True\<close>, and its exit status
  is 0 if at least one attempt returned \<open>True\<close> and 1 otherwise.
\<close>

theorem exit_status_counts_successes:
  assumes "\<forall>i < nat (total_num a). returned a i"
  shows "\<exists>pre. main a =
     Some (Returned (if \<exists>i < nat (total_num a). succeeded a i then 0 else 1),
       pre @ [Summary (length (filter (succeeded a) [0..<nat (total_num a)])) (total_num a)])"
proof -
  define s0 where "s0 = \<lparr>trace = [Log INFO Start, Log INFO ConfigCount, Log INFO ConfigServer,
    Log INFO ConfigHeadless], success_count = 0\<rparr>"
  define n where "n = length (filter (succeeded a) [0..<nat (total_num a)])"
  from assms have "\<forall>i\<in>set [0..<nat (total_num a)]. returned a i" by simp
  from batch_loop_counts[OF this, of s0] obtain evs where
    b: "batch_loop a [0..<nat (total_num a)] s0 =
      Some (Next (), s0\<lparr>trace := trace s0 @ evs, success_count := success_count s0 + n\<rparr>)"
    unfolding n_def by blast
  have pos: "0 < n \<longleftrightarrow> (\<exists>i < nat (total_num a). succeeded a i)"
    by (auto simp: n_def filter_empty_conv)
  have "main a = Some (Returned (if 0 < n then 0 else 1),
      (trace s0 @ evs) @ [Summary n (total_num a)])"
    unfolding main_def run_def batch_start_def
    by (simp add: eval_rules b[unfolded s0_def] s0_def cong: seq_weak_cong)
  with pos have "main a =
     Some (Returned (if \<exists>i < nat (total_num a). succeeded a i then 0 else 1),
       (trace s0 @ evs) @ [Summary n (total_num a)])"
    by simp
  then show ?thesis unfolding n_def by blast
qed

lemma scenario_fields:
  "driver_call scenario = (\<lambda>c. Returned ())"
  "code_fields scenario = (\<lambda>k. Returned (if k < 2 then 0 else 1))"
  "script scenario = (\<lambda>k frame. Returned False)"
  "iframes scenario = (\<lambda>k. Returned 1)"
  "generated scenario = Returned (Some ''a@b.test'')"
  "current_url scenario = Returned ''https://www.orchids.app/''"
  "cdp_cookies scenario = Returned
     [\<lparr>c_name = ''__client'', c_domain = ''clerk.orchids.app'', c_value = ''tok_abc''\<rparr>]"
  "post scenario = Returned 201"
  by (simp_all add: scenario_def)

lemma scenario_attempt:
  "map_option fst (register_one_account n t [] h scenario) = Some (Returned True)"
  by (simp add: attempt_defs eval_rules scenario_fields scenario_mail
      calm_turnstile[of scenario] scenario_code upload_empty text_facts upt_rec
      cong: seq_weak_cong)

lemma no_driver_attempt:
  "map_option fst (register_one_account n t url h no_driver) = Some (Returned False)"
  by (simp add: register_one_account_def run_def eval_rules no_driver_def attempt_start_def
      cong: seq_weak_cong)

theorem exit_status_counts_successes_witness:
  "(\<exists>pre. main mixed_batch = Some (Returned 0, pre @ [Summary 1 3])) \<and>
   (\<exists>pre. main no_driver_batch = Some (Returned 1, pre @ [Summary 0 2]))"
proof -
  have s1: "succeeded mixed_batch i \<longleftrightarrow> i = 1" for i
    by (simp add: succeeded_def attempt_result_def mixed_batch_def scenario_attempt
        no_driver_attempt del: map_option_eq_Some)
  have r1: "\<forall>i < nat (total_num mixed_batch). returned mixed_batch i"
  proof (intro allI impI)
    fix i
    have "map_option fst (attempt_result mixed_batch i) = Some (Returned (i = 1))"
      by (simp add: attempt_result_def mixed_batch_def scenario_attempt no_driver_attempt
          del: map_option_eq_Some)
    then show "returned mixed_batch i"
      by (auto simp: returned_def split: option.splits outcome.splits)
  qed
  have s2: "succeeded no_driver_batch i \<longleftrightarrow> False" for i
    by (simp add: succeeded_def attempt_result_def no_driver_batch_def no_driver_attempt
        del: map_option_eq_Some)
  have r2: "\<forall>i < nat (total_num no_driver_batch). returned no_driver_batch i"
  proof (intro allI impI)
    fix i
    have "map_option fst (attempt_result no_driver_batch i) = Some (Returned False)"
      by (simp add: attempt_result_def no_driver_batch_def no_driver_attempt
          del: map_option_eq_Some)
    then show "returned no_driver_batch i"
      by (auto simp: returned_def split: option.splits outcome.splits)
  qed
  have t1: "total_num mixed_batch = 3" "total_num no_driver_batch = 2"
    by (simp_all add: mixed_batch_def no_driver_batch_def)
  have f1: "length (filter (succeeded mixed_batch) [0..<3]) = 1"
    "length (filter (succeeded no_driver_batch) [0..<2]) = 0"
    by (simp_all add: upt_rec s1 s2)
  have e1: "\<exists>i<3. i = Suc 0" by (intro exI[of _ 1]) simp
  from exit_status_counts_successes [OF r1] exit_status_counts_successes [OF r2]
  show ?thesis
    by (simp add: s1 s2 t1 f1 e1)
qed

section \<open>The challenge loop\<close>














section \<open>Release of the browser\<close>

lemma session_open_appends: "appends inner (session_open before)"
  by (auto simp: appends_def session_open_def)

lemma body_session:
  assumes b: "attempt_body w url s = Some (fl, s')" and d: "\<not> driver s"
  shows "\<exists>evs. trace s' = trace s @ Browser Chrome # evs \<and> list_all inner evs \<and>
     (driver s' \<longleftrightarrow> driver_call w Chrome = Returned ())"
proof (cases "driver_call w Chrome")
  case (Raised e)
  with b have "s' = s\<lparr>trace := trace s @ [Browser Chrome]\<rparr>"
    by (simp add: attempt_body_chrome)
  with d Raised show ?thesis by simp
next
  case (Returned u)
  let ?s1 = "s\<lparr>trace := trace s @ [Browser Chrome], driver := True\<rparr>"
  have I1: "session_open (trace s) ?s1" by (simp add: session_open_def)
  have st: "stable (session_open (trace s))
     (seq (after_chrome w) (\<lambda>_. seq (fill_form w) (\<lambda>email.
        seq (clear_challenge w) (\<lambda>_. verify_email w email url))))"
    by (rule after_chrome_phases_stable[OF session_open_appends])
      (simp add: session_open_def)
  from b Returned have "seq (after_chrome w) (\<lambda>_. seq (fill_form w) (\<lambda>email.
        seq (clear_challenge w) (\<lambda>_. verify_email w email url))) ?s1 = Some (fl, s')"
    by (simp add: attempt_body_chrome)
  from stableD[OF st I1 this] Returned show ?thesis by (auto simp: session_open_def)
qed

lemma closing_shape:
  "closing w = [Browser ServiceStop, Browser Quit] \<or> closing w = [Browser ServiceStop]"
  by (simp add: closing_def split: outcome.splits)

lemma inner_no_close:
  "list_all inner evs \<Longrightarrow> Browser ServiceStop \<notin> set evs \<and> Browser Quit \<notin> set evs"
  by (auto simp: list_all_iff inner_def)

lemma attempt_released:
  assumes "register_one_account i t url h w = Some (r, evs)"
  shows "if Browser Chrome \<in> set evs \<and> driver_call w Chrome = Returned ()
     then \<exists>pre. evs = pre @ closing w \<and> Browser ServiceStop \<notin> set pre \<and> Browser Quit \<notin> set pre
     else Browser ServiceStop \<notin> set evs \<and> Browser Quit \<notin> set evs"
proof (cases "driver_call w Import")
  case (Raised e)
  with assms show ?thesis by (auto simp: attempt_unfold split: if_splits)
next
  case imp: (Returned u)
  show ?thesis
  proof (cases "driver_call w (ChromeOptions h)")
    case (Raised e)
    with assms imp show ?thesis by (auto simp: attempt_unfold)
  next
    case (Returned u')
    from assms imp Returned obtain fl s' where
      g: "guarded w url (entered i t h) = Some (fl, s')"
      and evs: "evs = trace s' @ (if driver s' then closing w else [])"
      by (auto simp: attempt_unfold split: option.splits)
    from g obtain fl0 s0 where b: "attempt_body w url (entered i t h) = Some (fl0, s0)"
      and s': "s' = s0 \<or> s' = s0\<lparr>trace := trace s0 @ [Log ERR AttemptError]\<rparr>"
      by (auto simp: guarded_apply split: option.splits flow.splits if_splits)
    have d: "\<not> driver (entered i t h)" by (simp add: entered_def)
    from body_session[OF b d] obtain mid where
      t0: "trace s0 = trace (entered i t h) @ Browser Chrome # mid" and mid: "list_all inner mid"
      and dr: "driver s0 \<longleftrightarrow> driver_call w Chrome = Returned ()" by blast
    from s' have dr': "driver s' = driver s0" by auto
    from s' obtain tl where t': "trace s' = trace s0 @ tl" and tl: "list_all inner tl"
      by (auto simp: inner_def)
    have pre: "Browser ServiceStop \<notin> set (trace s') \<and> Browser Quit \<notin> set (trace s')"
      using inner_no_close[OF mid] inner_no_close[OF tl] by (simp add: t' t0 entered_def)
    show ?thesis
    proof (cases "driver_call w Chrome = Returned ()")
      case True
      with dr dr' have "evs = trace s' @ closing w" by (simp add: evs)
      with pre True show ?thesis by (auto simp: t' t0)
    next
      case False
      with dr dr' have "evs = trace s'" by (simp add: evs)
      with pre False show ?thesis by simp
    qed
  qed
qed

lemma still_turnstile:
  assumes "driver_call w (SwitchFrame k 0) = Returned ()"
    "driver_call w (DefaultContent k 0) = Returned ()"
    "script w = (\<lambda>k frame. Returned False)" "iframes w = (\<lambda>k. Returned 1)"
  shows "force_inject_turnstile w k =
     Some (Returned False,
       [Browser (Script k None), Browser (FindFrames k), Browser (SwitchFrame k 0),
        Browser (Script k (Some 0)), Browser (DefaultContent k 0)])"
  by (simp add: force_inject_turnstile_def run_def start_def eval_rules assms
      cong: seq_weak_cong)

lemma stop_fails_fields:
  "driver_call stop_fails = (\<lambda>c. if c = ServiceStop then Raised Exception else Returned ())"
  "code_fields stop_fails = (\<lambda>k. Returned (if k < 2 then 0 else 1))"
  "script stop_fails = (\<lambda>k frame. Returned False)"
  "iframes stop_fails = (\<lambda>k. Returned 1)"
  "generated stop_fails = Returned (Some ''a@b.test'')"
  "inbox stop_fails = inbox scenario"
  "current_url stop_fails = Returned ''https://www.orchids.app/''"
  "cdp_cookies stop_fails = Returned
     [\<lparr>c_name = ''__client'', c_domain = ''clerk.orchids.app'', c_value = ''tok_abc''\<rparr>]"
  by (simp_all add: stop_fails_def scenario_def)

text \<open>
  C9. The \<open>finally\<close> block of \<open>register_one_account\<close> puts \<open>driver.service.stop()\<close> and
  \<open>driver.quit()\<close> in one \<open>try\<close> with a bare \<open>except\<close>, so when \<open>stop()\<close> raises,
  \<open>quit()\<close> is skipped. In an attempt that extracts the credential and returns \<open>True\<close>, with
  a \<open>stop()\<close> that raises, the browser is created and \<open>stop()\<close> is called, and \<open>quit()\<close> never
  is; the same holds for an attempt whose page load raises. Where \<open>stop()\<close> returns, both
  closing calls are made.
\<close>

theorem quit_skipped_when_stop_raises:
  "map_option (\<lambda>r. (fst r, session_calls (snd r)))
     (register_one_account 1 1 [] False stop_fails) =
     Some (Returned True, [Chrome, ServiceStop]) \<and>
   register_one_account 1 1 [] False crashing =
     Some (Returned False,
       [Banner 1 1, Browser Import, Browser (ChromeOptions False), Browser Chrome,
        Log INFO Visiting, Browser SetPageLoadTimeout, Browser GetTarget,
        Log ERR AttemptError, Browser ServiceStop]) \<and>
   map_option (\<lambda>r. (fst r, session_calls (snd r)))
     (register_one_account 1 1 [] False scenario) =
     Some (Returned True, [Chrome, ServiceStop, Quit])"
proof (intro conjI)
  show "map_option (\<lambda>r. (fst r, session_calls (snd r)))
     (register_one_account 1 1 [] False stop_fails) =
     Some (Returned True, [Chrome, ServiceStop])"
    by (simp add: attempt_defs eval_rules stop_fails_fields scenario_mail
        still_turnstile[of stop_fails] scenario_code upload_empty text_facts upt_rec
        session_calls_def cong: seq_weak_cong)
  show "register_one_account 1 1 [] False crashing =
     Some (Returned False,
       [Banner 1 1, Browser Import, Browser (ChromeOptions False), Browser Chrome,
        Log INFO Visiting, Browser SetPageLoadTimeout, Browser GetTarget,
        Log ERR AttemptError, Browser ServiceStop])"
    by (simp add: attempt_defs eval_rules crashing_def scenario_def cong: seq_weak_cong)
  have f: "driver_call scenario = (\<lambda>c. Returned ())"
    "code_fields scenario = (\<lambda>k. Returned (if k < 2 then 0 else 1))"
    "script scenario = (\<lambda>k frame. Returned False)"
    "iframes scenario = (\<lambda>k. Returned 1)"
    "generated scenario = Returned (Some ''a@b.test'')"
    "current_url scenario = Returned ''https://www.orchids.app/''"
    "cdp_cookies scenario = Returned
       [\<lparr>c_name = ''__client'', c_domain = ''clerk.orchids.app'', c_value = ''tok_abc''\<rparr>]"
    by (simp_all add: scenario_def)
  show "map_option (\<lambda>r. (fst r, session_calls (snd r)))
     (register_one_account 1 1 [] False scenario) =
     Some (Returned True, [Chrome, ServiceStop, Quit])"
    by (simp add: attempt_defs eval_rules f scenario_mail
        calm_turnstile[of scenario] scenario_code upload_empty text_facts upt_rec
        session_calls_def cong: seq_weak_cong)
qed

section \<open>Publication of the credential\<close>

lemma rejecting_fields:
  "driver_call rejecting = (\<lambda>c. Returned ())"
  "code_fields rejecting = (\<lambda>k. Returned (if k < 2 then 0 else 1))"
  "script rejecting = (\<lambda>k frame. Returned False)"
  "iframes rejecting = (\<lambda>k. Returned 1)"
  "generated rejecting = Returned (Some ''a@b.test'')"
  "inbox rejecting = inbox scenario"
  "current_url rejecting = Returned ''https://www.orchids.app/''"
  "cdp_cookies rejecting = Returned
     [\<lparr>c_name = ''__client'', c_domain = ''clerk.orchids.app'', c_value = ''tok_abc''\<rparr>]"
  "post rejecting = Returned 500"
  by (simp_all add: rejecting_def scenario_def)

lemma unreachable_fields:
  "driver_call unreachable = (\<lambda>c. Returned ())"
  "code_fields unreachable = (\<lambda>k. Returned (if k < 2 then 0 else 1))"
  "script unreachable = (\<lambda>k frame. Returned False)"
  "iframes unreachable = (\<lambda>k. Returned 1)"
  "generated unreachable = Returned (Some ''a@b.test'')"
  "inbox unreachable = inbox scenario"
  "current_url unreachable = Returned ''https://www.orchids.app/''"
  "cdp_cookies unreachable = Returned
     [\<lparr>c_name = ''__client'', c_domain = ''clerk.orchids.app'', c_value = ''tok_abc''\<rparr>]"
  "post unreachable = Raised Exception"
  by (simp_all add: unreachable_def scenario_def)

lemma rejecting_attempt:
  "\<exists>evs. register_one_account 1 1 ''http://srv'' False rejecting = Some (Returned True, evs) \<and>
     Log INFO KeyExtracted \<in> set evs \<and> Log ERR UploadRejected \<in> set evs \<and>
     stdout_lines evs = [''CLIENT_KEY:tok_abc'']"
  by (simp add: attempt_defs eval_rules rejecting_fields scenario_mail
      calm_turnstile[of rejecting] scenario_code upload_status text_facts upt_rec
      cong: seq_weak_cong)

lemma unreachable_attempt:
  "\<exists>evs. register_one_account 1 1 ''http://srv'' False unreachable = Some (Returned True, evs) \<and>
     Log INFO KeyExtracted \<in> set evs \<and> Log ERR UploadException \<in> set evs \<and>
     stdout_lines evs = [''CLIENT_KEY:tok_abc'']"
  by (simp add: attempt_defs eval_rules unreachable_fields scenario_mail
      calm_turnstile[of unreachable] scenario_code upload_raised text_facts upt_rec
      cong: seq_weak_cong)

text \<open>
  C6. \<open>upload_to_server\<close> with an empty \<open>server_url\<close> sends no request and returns \<open>True\<close>.
  With a server, it posts the credential and returns \<open>True\<close> exactly when the status is 200 or
  201; any other status is logged and gives \<open>False\<close>, and so does an exception of the request
  (an \<open>Exception\<close>), which is logged in the handler. \<open>register_one_account\<close> ignores that
  result: whenever the publication ends in a status or in such an exception, an attempt that
  has logged the extraction of the key returns \<open>True\<close>.
\<close>

theorem publish_contract:
  "upload_to_server p key [] = Some (Returned True, [Stdout (''CLIENT_KEY:'' @ key)]) \<and>
   (url \<noteq> [] \<longrightarrow>
      upload_to_server (Returned st) key url =
        Some (Returned (st = 200 \<or> st = 201),
          [Stdout (''CLIENT_KEY:'' @ key), Log INFO UploadStart,
           Http (PostCredential (url @ ''/api/orchids/credentials'') key),
           if st = 200 \<or> st = 201 then Log INFO UploadSaved else Log ERR UploadRejected])) \<and>
   (url \<noteq> [] \<longrightarrow> is_Exception e \<longrightarrow>
      upload_to_server (Raised e) key url =
        Some (Returned False,
          [Stdout (''CLIENT_KEY:'' @ key), Log INFO UploadStart,
           Http (PostCredential (url @ ''/api/orchids/credentials'') key),
           Log ERR UploadException])) \<and>
   (register_one_account i t url h w = Some (r, evs) \<longrightarrow>
      Log INFO KeyExtracted \<in> set evs \<longrightarrow>
      (\<forall>x. post w = Raised x \<longrightarrow> is_Exception x) \<longrightarrow>
      r = Returned True)"
proof (intro conjI impI)
  show "upload_to_server p key [] = Some (Returned True, [Stdout (''CLIENT_KEY:'' @ key)])"
    by (rule upload_empty)
next
  assume "url \<noteq> []"
  then show "upload_to_server (Returned st) key url =
        Some (Returned (st = 200 \<or> st = 201),
          [Stdout (''CLIENT_KEY:'' @ key), Log INFO UploadStart,
           Http (PostCredential (url @ ''/api/orchids/credentials'') key),
           if st = 200 \<or> st = 201 then Log INFO UploadSaved else Log ERR UploadRejected])"
    by (rule upload_status)
next
  assume "url \<noteq> []" "is_Exception e"
  then show "upload_to_server (Raised e) key url =
        Some (Returned False,
          [Stdout (''CLIENT_KEY:'' @ key), Log INFO UploadStart,
           Http (PostCredential (url @ ''/api/orchids/credentials'') key),
           Log ERR UploadException])"
    by (simp add: upload_raised)
next
  assume a: "register_one_account i t url h w = Some (r, evs)"
    and k: "Log INFO KeyExtracted \<in> set evs"
    and p: "\<forall>x. post w = Raised x \<longrightarrow> is_Exception x"
  from attempt_published[OF a] k p show "r = Returned True" by auto
qed

theorem publish_contract_witness:
  "upload_to_server (Returned 500) ''tok_abc'' ''http://srv'' =
     Some (Returned False,
       [Stdout ''CLIENT_KEY:tok_abc'', Log INFO UploadStart,
        Http (PostCredential ''http://srv/api/orchids/credentials'' ''tok_abc''),
        Log ERR UploadRejected]) \<and>
   upload_to_server (Returned 201) ''tok_abc'' ''http://srv'' =
     Some (Returned True,
       [Stdout ''CLIENT_KEY:tok_abc'', Log INFO UploadStart,
        Http (PostCredential ''http://srv/api/orchids/credentials'' ''tok_abc''),
        Log INFO UploadSaved]) \<and>
   upload_to_server (Raised Exception) ''tok_abc'' ''http://srv'' =
     Some (Returned False,
       [Stdout ''CLIENT_KEY:tok_abc'', Log INFO UploadStart,
        Http (PostCredential ''http://srv/api/orchids/credentials'' ''tok_abc''),
        Log ERR UploadException]) \<and>
   (\<exists>evs. register_one_account 1 1 ''http://srv'' False rejecting = Some (Returned True, evs) \<and>
      Log INFO KeyExtracted \<in> set evs \<and> Log ERR UploadRejected \<in> set evs) \<and>
   (\<exists>evs. register_one_account 1 1 ''http://srv'' False unreachable =
        Some (Returned True, evs) \<and>
      Log INFO KeyExtracted \<in> set evs \<and> Log ERR UploadException \<in> set evs)"
proof -
  have u: "''http://srv'' \<noteq> []" "is_Exception Exception"
    by (simp_all add: is_Exception_def)
  note a = publish_contract [where url = "''http://srv''" and key = "''tok_abc''"
      and e = Exception and st = 500 and p = "Returned 500" and i = 1 and t = 1
      and h = False and w = rejecting and r = "Returned True" and evs = "[]"]
  note b = publish_contract [where url = "''http://srv''" and key = "''tok_abc''"
      and e = Exception and st = 201 and p = "Returned 201" and i = 1 and t = 1
      and h = False and w = rejecting and r = "Returned True" and evs = "[]"]
  from a u have c1: "upload_to_server (Returned 500) ''tok_abc'' ''http://srv'' =
     Some (Returned False,
       [Stdout ''CLIENT_KEY:tok_abc'', Log INFO UploadStart,
        Http (PostCredential ''http://srv/api/orchids/credentials'' ''tok_abc''),
        Log ERR UploadRejected])"
    by simp
  from b u have c2: "upload_to_server (Returned 201) ''tok_abc'' ''http://srv'' =
     Some (Returned True,
       [Stdout ''CLIENT_KEY:tok_abc'', Log INFO UploadStart,
        Http (PostCredential ''http://srv/api/orchids/credentials'' ''tok_abc''),
        Log INFO UploadSaved])"
    by simp
  from a u have c3: "upload_to_server (Raised Exception) ''tok_abc'' ''http://srv'' =
     Some (Returned False,
       [Stdout ''CLIENT_KEY:tok_abc'', Log INFO UploadStart,
        Http (PostCredential ''http://srv/api/orchids/credentials'' ''tok_abc''),
        Log ERR UploadException])"
    by simp
  from rejecting_attempt unreachable_attempt c1 c2 c3 show ?thesis by blast
qed

section \<open>The line on standard output\<close>

lemma rejecting_selected: "selected rejecting = Some ''tok_abc''"
  by (simp add: selected_def cookies_read_def pick_key_def rejecting_fields)

text \<open>
  C10. \<open>upload_to_server\<close> prints the line \<open>CLIENT_KEY:\<close> followed by the key as its first
  statement, once, whatever the server address is and however the request ends (also when it
  raises). \<open>register_one_account\<close> calls it exactly when it has extracted a key, right after
  logging the extraction, with the value its cookie loop selected: the standard output of an
  attempt is that one line if the extraction was logged, and nothing otherwise.
\<close>

theorem client_key_line_printed_once:
  "(\<exists>res out. upload_to_server p key server_url = Some (res, out) \<and>
      stdout_lines out = [''CLIENT_KEY:'' @ key]) \<and>
   (register_one_account i t url h w = Some (r, evs) \<longrightarrow>
      stdout_lines evs =
        (if Log INFO KeyExtracted \<in> set evs then [''CLIENT_KEY:'' @ the (selected w)]
         else []) \<and>
      (Log INFO KeyExtracted \<in> set evs \<longrightarrow> truthy (selected w)))"
proof (intro conjI impI)
  from upload_cases[of p key server_url]
  show "\<exists>res out. upload_to_server p key server_url = Some (res, out) \<and>
      stdout_lines out = [''CLIENT_KEY:'' @ key]"
    by blast
next
  assume a: "register_one_account i t url h w = Some (r, evs)"
  from attempt_published[OF a]
  show "stdout_lines evs =
        (if Log INFO KeyExtracted \<in> set evs then [''CLIENT_KEY:'' @ the (selected w)]
         else [])"
    by (simp split: if_splits)
next
  assume a: "register_one_account i t url h w = Some (r, evs)"
    and k: "Log INFO KeyExtracted \<in> set evs"
  from attempt_published[OF a] k show "truthy (selected w)" by simp
qed

theorem client_key_line_printed_once_witness:
  "(\<exists>res out. upload_to_server (Raised Exception) ''tok_abc'' ''http://srv'' = Some (res, out) \<and>
      stdout_lines out = [''CLIENT_KEY:tok_abc'']) \<and>
   (\<exists>evs. register_one_account 1 1 ''http://srv'' False rejecting = Some (Returned True, evs) \<and>
      Log INFO KeyExtracted \<in> set evs \<and>
      stdout_lines evs = [''CLIENT_KEY:'' @ the (selected rejecting)]) \<and>
   selected rejecting = Some ''tok_abc'' \<and> truthy (selected rejecting)"
proof -
  from rejecting_attempt obtain evs where
    a: "register_one_account 1 1 ''http://srv'' False rejecting = Some (Returned True, evs)"
    and k: "Log INFO KeyExtracted \<in> set evs"
    by blast
  note w = client_key_line_printed_once [where p = "Raised Exception" and key = "''tok_abc''"
      and server_url = "''http://srv''" and i = 1 and t = 1 and url = "''http://srv''"
      and h = False and w = rejecting and r = "Returned True" and evs = evs]
  from w have c1: "\<exists>res out. upload_to_server (Raised Exception) ''tok_abc'' ''http://srv'' =
      Some (res, out) \<and> stdout_lines out = [''CLIENT_KEY:tok_abc'']"
    by simp
  from w a k have c2: "stdout_lines evs = [''CLIENT_KEY:'' @ the (selected rejecting)]"
    and c3: "truthy (selected rejecting)"
    by simp_all
  from a k c1 c2 c3 rejecting_selected show ?thesis by blast
qed

end
